theory Spec2Isabelle
  imports
    Complex_Main
    "HOL-Library.Char_ord"
    "HOL-Library.List_Lexorder"
    "HOL-Library.Product_Lexorder"
    "HOL-Library.Option_ord"
begin

section \<open>Biometric integration: the record store\<close>

text \<open>
  The application keeps four tables: Biometric Attendance Log, its child table Biometric
  Attendance Punch Table, Employee and Employee Checkin. Each table is a list of rows.
  Document names are primary keys; names of documents created by the program are drawn
  from a counter. A calendar date is (year, month, day). A time of day is the number of
  whole seconds since midnight: the database driver hands a TIME column to Python as a
  \<^verbatim>\<open>timedelta\<close>, and NULL as \<^verbatim>\<open>None\<close>.
\<close>

type_synonym docname = nat
type_synonym date = "nat \<times> nat \<times> nat"
type_synonym datetime = "date \<times> nat"

datatype error =
    ValidationError string
  | TypeError
  | ValueError
  | IndexError
  | ConnectionError
  | JSONDecodeError
  | InsertError

datatype log_type = IN | OUT

record attendance_log =
  l_name :: docname
  l_employee_no :: string
  l_event_date :: date
  l_device_id :: "string option"

record punch =
  p_name :: docname
  p_parent :: docname
  p_punch_time :: "nat option"
  p_punch_type :: string
  p_synced_to_employee_checkin :: bool
  p_device_id :: "string option"
  p_employee_checkin :: "docname option"

record employee =
  e_name :: string
  e_attendance_device_id :: string
  e_status :: string

record employee_checkin =
  c_name :: docname
  c_employee :: string
  c_time :: datetime
  c_log_type :: log_type
  c_device_id :: "string option"
  c_latitude :: "real option"
  c_longitude :: "real option"
  c_geo_latitude :: "real option"
  c_geo_longitude :: "real option"
  c_biometric_log :: "docname option"
  c_biometric_punch :: "docname option"

record store =
  logs :: "attendance_log list"
  punches :: "punch list"
  employees :: "employee list"
  checkins :: "employee_checkin list"
  error_log :: "string list"
  next_name :: docname

text \<open>
  What the program reads from its surroundings: which optional columns exist
  (\<^verbatim>\<open>frappe.db.has_column\<close>), whether the host application accepts a document
  on insert or save (a refusal raises), the one geolocation fetched per reducer run, and
  \<^verbatim>\<open>datetime.strptime\<close> with the format \<^verbatim>\<open>%Y-%m-%dT%H:%M:%S\<close>
  (\<open>None\<close> where it raises ValueError).
\<close>

record env =
  punch_has_employee_checkin :: bool
  checkin_has_biometric_log :: bool
  checkin_has_biometric_punch :: bool
  checkin_has_device_id :: bool
  checkin_has_latitude :: bool
  checkin_has_longitude :: bool
  checkin_has_geo_latitude :: bool
  checkin_has_geo_longitude :: bool
  log_has_device_id :: bool
  punch_has_device_id :: bool
  geolocation :: "real \<times> real"
  insert_ok :: "store \<Rightarrow> employee_checkin \<Rightarrow> bool"
  save_ok :: "store \<Rightarrow> attendance_log \<Rightarrow> punch \<Rightarrow> bool"
  strptime :: "string \<Rightarrow> datetime option"

type_synonym 'a result = "(error \<times> store) + 'a"

text \<open>Python's \<^verbatim>\<open>str\<close> of a natural number and of an int.\<close>

fun str_nat :: "nat \<Rightarrow> string" where
  "str_nat n =
     (if n < 10 then [''0123456789'' ! n]
      else str_nat (n div 10) @ [''0123456789'' ! (n mod 10)])"

declare str_nat.simps [simp del]

definition str_int :: "int \<Rightarrow> string" where
  "str_int n = (if n < 0 then CHR ''-'' # str_nat (nat (- n)) else str_nat (nat n))"

section \<open>The punch-to-checkin reducer (employee_checkin_sync.py)\<close>

text \<open>One row of the reducer's SELECT, with the column aliases of the query.\<close>

record prow =
  punch_name :: docname
  punch_time :: "nat option"
  punch_type :: string
  synced :: bool
  punch_device_id :: "string option"
  log_name :: docname
  employee_no :: string
  event_date :: date
  log_device_id :: "string option"

definition join_row :: "punch \<Rightarrow> attendance_log \<Rightarrow> prow" where
  "join_row p l =
     \<lparr>punch_name = p_name p, punch_time = p_punch_time p, punch_type = p_punch_type p,
      synced = p_synced_to_employee_checkin p, punch_device_id = p_device_id p,
      log_name = l_name l, employee_no = l_employee_no l, event_date = l_event_date l,
      log_device_id = l_device_id l\<rparr>"

text \<open>
  The query: punches joined with their parent logs, unsynced only, ordered by
  (employee_no, event_date, punch_time); NULL sorts first.
\<close>

definition unsynced_punches :: "store \<Rightarrow> prow list" where
  "unsynced_punches s =
     sort_key (\<lambda>r. (employee_no r, event_date r, punch_time r))
       (concat (map (\<lambda>p. map (join_row p) (filter (\<lambda>l. l_name l = p_parent p) (logs s)))
          (filter (\<lambda>p. \<not> p_synced_to_employee_checkin p) (punches s))))"

text \<open>\<^verbatim>\<open>groups.setdefault(key, []).append(p)\<close> on a dict that keeps insertion order.\<close>

fun setdefault_append :: "'k \<Rightarrow> 'v \<Rightarrow> ('k \<times> 'v list) list \<Rightarrow> ('k \<times> 'v list) list" where
  "setdefault_append k v [] = [(k, [v])]"
| "setdefault_append k v ((k', vs) # g) =
     (if k' = k then (k', vs @ [v]) # g else (k', vs) # setdefault_append k v g)"

definition group_punches :: "prow list \<Rightarrow> ((string \<times> date) \<times> prow list) list" where
  "group_punches rows =
     foldl (\<lambda>g p. setdefault_append (employee_no p, event_date p) p g) [] rows"

text \<open>
  \<^verbatim>\<open>group_punches.sort(key=lambda x: x["punch_time"] or "")\<close>. The key of a row is
  its timedelta, or the empty string when the time is None or the zero timedelta (both
  are falsy). Python's sort raises TypeError when it has to compare a string with a
  timedelta, which it does as soon as both kinds of key occur in the list.
\<close>

datatype sortkey = KStr | KDelta nat

definition time_key :: "prow \<Rightarrow> sortkey" where
  "time_key x = (case punch_time x of None \<Rightarrow> KStr
                 | Some t \<Rightarrow> if t = 0 then KStr else KDelta t)"

definition sort_by_time :: "prow list \<Rightarrow> error + prow list" where
  "sort_by_time g =
     (if list_ex (\<lambda>x. time_key x = KStr) g \<and> list_ex (\<lambda>x. time_key x \<noteq> KStr) g
      then Inl TypeError
      else Inr (sort_key (\<lambda>x. case time_key x of KStr \<Rightarrow> 0 | KDelta t \<Rightarrow> t) g))"

text \<open>
  \<^verbatim>\<open>get_datetime(f"{event_date} {punch_time}")\<close>: the text of a time of day parses;
  the text \<^verbatim>\<open>None\<close> does not, and the parser raises.
\<close>

definition get_datetime :: "date \<Rightarrow> nat option \<Rightarrow> datetime option" where
  "get_datetime d t = (case t of None \<Rightarrow> None | Some secs \<Rightarrow> Some (d, secs))"

text \<open>\<^verbatim>\<open>frappe.db.set_value("Biometric Attendance Punch Table", name, ...)\<close>.\<close>

definition mark_synced :: "docname option \<Rightarrow> punch \<Rightarrow> punch" where
  "mark_synced link p =
     (case link of
        None \<Rightarrow> p\<lparr>p_synced_to_employee_checkin := True\<rparr>
      | Some c \<Rightarrow> p\<lparr>p_synced_to_employee_checkin := True, p_employee_checkin := Some c\<rparr>)"

definition set_synced :: "docname \<Rightarrow> docname option \<Rightarrow> store \<Rightarrow> store" where
  "set_synced n link s =
     s\<lparr>punches := map (\<lambda>p. if p_name p = n then mark_synced link p else p) (punches s)\<rparr>"

definition checkin_exists :: "store \<Rightarrow> string \<Rightarrow> datetime \<Rightarrow> bool" where
  "checkin_exists s emp dt = list_ex (\<lambda>c. c_employee c = emp \<and> c_time c = dt) (checkins s)"

text \<open>\<^verbatim>\<open>punch.get("punch_device_id") or punch.get("log_device_id")\<close>\<close>

definition pick_device_id :: "prow \<Rightarrow> string option" where
  "pick_device_id x =
     (case punch_device_id x of
        Some d \<Rightarrow> if d \<noteq> [] then Some d else log_device_id x
      | None \<Rightarrow> log_device_id x)"

definition new_checkin :: "env \<Rightarrow> store \<Rightarrow> string \<Rightarrow> datetime \<Rightarrow> prow \<Rightarrow> log_type \<Rightarrow> employee_checkin" where
  "new_checkin en s emp dt x lt =
     \<lparr>c_name = next_name s, c_employee = emp, c_time = dt, c_log_type = lt,
      c_device_id =
        (case pick_device_id x of
           Some d \<Rightarrow> if checkin_has_device_id en \<and> d \<noteq> [] then Some d else None
         | None \<Rightarrow> None),
      c_latitude = (if checkin_has_latitude en then Some (fst (geolocation en)) else None),
      c_longitude = (if checkin_has_longitude en then Some (snd (geolocation en)) else None),
      c_geo_latitude = (if checkin_has_geo_latitude en then Some (fst (geolocation en)) else None),
      c_geo_longitude = (if checkin_has_geo_longitude en then Some (snd (geolocation en)) else None),
      c_biometric_log = (if checkin_has_biometric_log en then Some (log_name x) else None),
      c_biometric_punch = (if checkin_has_biometric_punch en then Some (punch_name x) else None)\<rparr>"

text \<open>
  The nested function \<^verbatim>\<open>_create_checkin_for_punch\<close>. Its nonlocal counters
  \<^verbatim>\<open>created\<close> and \<^verbatim>\<open>already_synced\<close> travel with the store. An exception
  leaves with the store as it stood when it was raised.
\<close>

definition create_checkin_for_punch ::
  "env \<Rightarrow> string \<Rightarrow> date \<Rightarrow> store \<times> nat \<times> nat \<Rightarrow> prow \<Rightarrow> log_type \<Rightarrow> (store \<times> nat \<times> nat) result" where
  "create_checkin_for_punch en emp d st x lt =
     (case st of (s, created, already_synced) \<Rightarrow>
        (case get_datetime d (punch_time x) of
           None \<Rightarrow> Inl (ValueError, s)
         | Some punch_dt \<Rightarrow>
             if checkin_exists s emp punch_dt
             then Inr (set_synced (punch_name x) None s, created, already_synced + 1)
             else
               (let checkin = new_checkin en s emp punch_dt x lt in
                if \<not> insert_ok en s checkin then Inl (InsertError, s)
                else
                  Inr (set_synced (punch_name x)
                         (if punch_has_employee_checkin en then Some (c_name checkin) else None)
                         (s\<lparr>checkins := checkins s @ [checkin],
                            next_name := Suc (next_name s)\<rparr>),
                       created + 1, already_synced))))"

definition mark_middle :: "store \<Rightarrow> prow list \<Rightarrow> store" where
  "mark_middle s middle = foldl (\<lambda>s' p. set_synced (punch_name p) None s') s middle"

text \<open>The body of the loop over \<^verbatim>\<open>groups.items()\<close>.\<close>

definition process_group ::
  "env \<Rightarrow> store \<times> nat \<times> nat \<Rightarrow> (string \<times> date) \<times> prow list \<Rightarrow> (store \<times> nat \<times> nat) result" where
  "process_group en st g =
     (case st of (s, created, already_synced) \<Rightarrow>
      case g of ((emp_no, ev_date), grp) \<Rightarrow>
        if emp_no = [] then Inr st
        else
          (case find (\<lambda>e. e_attendance_device_id e = emp_no) (employees s) of
             None \<Rightarrow> Inr st
           | Some emp_row \<Rightarrow>
               if e_status emp_row \<noteq> ''Active'' then Inr st
               else
                 (case sort_by_time grp of
                    Inl err \<Rightarrow> Inl (err, s)
                  | Inr [] \<Rightarrow> Inl (IndexError, s)
                  | Inr (x # xs) \<Rightarrow>
                      (let first = x; lst = last (x # xs) in
                       case create_checkin_for_punch en (e_name emp_row) ev_date st first IN of
                         Inl err \<Rightarrow> Inl err
                       | Inr st1 \<Rightarrow>
                           (case (if punch_name lst \<noteq> punch_name first
                                  then create_checkin_for_punch en (e_name emp_row) ev_date st1 lst OUT
                                  else Inr st1) of
                              Inl err \<Rightarrow> Inl err
                            | Inr (s2, created2, already2) \<Rightarrow>
                                Inr (mark_middle s2
                                       (filter (\<lambda>p. punch_name p \<noteq> punch_name first
                                                  \<and> punch_name p \<noteq> punch_name lst) (x # xs)),
                                     created2, already2))))))"

fun for_groups ::
  "env \<Rightarrow> store \<times> nat \<times> nat \<Rightarrow> ((string \<times> date) \<times> prow list) list \<Rightarrow> (store \<times> nat \<times> nat) result" where
  "for_groups en st [] = Inr st"
| "for_groups en st (g # gs) =
     (case process_group en st g of
        Inl err \<Rightarrow> Inl err
      | Inr st' \<Rightarrow> for_groups en st' gs)"

definition sync_punches_to_employee_checkin :: "env \<Rightarrow> store \<Rightarrow> (store \<times> nat \<times> nat) result" where
  "sync_punches_to_employee_checkin en s =
     (let rows = unsynced_punches s in
      if rows = [] then Inr (s, 0, 0)
      else for_groups en (s, 0, 0) (group_punches rows))"



section \<open>The device ingest (biometric_integration_settings.py)\<close>

text \<open>
  The device answers a request, of which only \<^verbatim>\<open>searchResultPosition\<close> and
  \<^verbatim>\<open>maxResults\<close> vary during one sync. \<open>None\<close> is a request that raised
  (no connection, timeout); an answer carries its HTTP status, its text and its JSON
  body (\<open>None\<close> when the body does not decode). A missing key is \<open>None\<close>.
\<close>

record event =
  employeeNoString :: "string option"
  ev_time :: "string option"

record acs_event =
  totalMatches :: "int option"
  InfoList :: "event list option"

record response =
  status_code :: nat
  resp_text :: string
  json :: "acs_event option"

type_synonym device = "nat \<Rightarrow> nat \<Rightarrow> response option"

definition batch_size :: nat where
  "batch_size = 30"

definition fetch_failed :: "string \<Rightarrow> response \<Rightarrow> error" where
  "fetch_failed label r =
     ValidationError (''['' @ label @ ''] Failed to fetch attendance logs. Status: ''
        @ str_nat (status_code r) @ '', Response: '' @ resp_text r)"

definition too_many :: "string \<Rightarrow> int \<Rightarrow> error" where
  "too_many label n =
     ValidationError (''['' @ label @ ''] Too many records to process ('' @ str_int n
        @ ''). Reduce date range.'')"

text \<open>
  \<^verbatim>\<open>frappe.get_all("Biometric Attendance Log", filters=..., limit_page_length=1)\<close>:
  one log of that employee and date, if there is any.
\<close>

definition get_all_log :: "store \<Rightarrow> string \<Rightarrow> date \<Rightarrow> attendance_log option" where
  "get_all_log s emp_no d =
     find (\<lambda>l. l_employee_no l = emp_no \<and> l_event_date l = d) (logs s)"

text \<open>
  The COUNT query on the punch table. A new document has no name yet, and
  \<^verbatim>\<open>parent = NULL\<close> matches no row.
\<close>

definition existing_punch :: "store \<Rightarrow> attendance_log option \<Rightarrow> nat \<Rightarrow> bool" where
  "existing_punch s doc t =
     (case doc of
        None \<Rightarrow> False
      | Some l \<Rightarrow> list_ex (\<lambda>p. p_parent p = l_name l \<and> p_punch_time p = Some t) (punches s))"

definition punch_row :: "env \<Rightarrow> string \<Rightarrow> docname \<Rightarrow> docname \<Rightarrow> nat \<Rightarrow> punch" where
  "punch_row en ip n par t =
     \<lparr>p_name = n, p_parent = par, p_punch_time = Some t, p_punch_type = ''Auto'',
      p_synced_to_employee_checkin = False,
      p_device_id = (if punch_has_device_id en then Some ip else None),
      p_employee_checkin = None\<rparr>"

text \<open>
  The document about to be saved, with the punch appended to it: the log found, or a new
  one, with \<^verbatim>\<open>device_id\<close> set when the column exists.
\<close>

definition log_doc :: "env \<Rightarrow> string \<Rightarrow> store \<Rightarrow> attendance_log option \<Rightarrow> string \<Rightarrow> date \<Rightarrow> attendance_log" where
  "log_doc en ip s doc emp_no d =
     (let l = (case doc of
                 Some l \<Rightarrow> l
               | None \<Rightarrow> \<lparr>l_name = next_name s, l_employee_no = emp_no, l_event_date = d,
                           l_device_id = None\<rparr>)
      in if log_has_device_id en then l\<lparr>l_device_id := Some ip\<rparr> else l)"

definition new_punch :: "env \<Rightarrow> string \<Rightarrow> store \<Rightarrow> attendance_log option \<Rightarrow> nat \<Rightarrow> punch" where
  "new_punch en ip s doc t =
     (case doc of
        Some l \<Rightarrow> punch_row en ip (next_name s) (l_name l) t
      | None \<Rightarrow> punch_row en ip (Suc (next_name s)) (next_name s) t)"

text \<open>\<^verbatim>\<open>doc.save(ignore_permissions=True)\<close>, when the host application accepts it.\<close>

definition save_doc :: "store \<Rightarrow> attendance_log option \<Rightarrow> attendance_log \<Rightarrow> punch \<Rightarrow> store" where
  "save_doc s doc l p =
     (case doc of
        Some l0 \<Rightarrow>
          s\<lparr>logs := map (\<lambda>l'. if l_name l' = l_name l0 then l else l') (logs s),
            punches := punches s @ [p],
            next_name := Suc (next_name s)\<rparr>
      | None \<Rightarrow>
          s\<lparr>logs := logs s @ [l],
            punches := punches s @ [p],
            next_name := Suc (Suc (next_name s))\<rparr>)"

text \<open>The body of \<^verbatim>\<open>for log in events\<close>.\<close>

definition process_event ::
  "env \<Rightarrow> string \<Rightarrow> string \<Rightarrow> store \<times> nat \<times> nat \<Rightarrow> event \<Rightarrow> (store \<times> nat \<times> nat) result" where
  "process_event en label ip st ev =
     (case st of (s, count, skipped) \<Rightarrow>
        (let emp_no = (case employeeNoString ev of None \<Rightarrow> [] | Some e \<Rightarrow> e);
             event_timestamp = (case ev_time ev of None \<Rightarrow> [] | Some t \<Rightarrow> t)
         in
           if emp_no = [] \<or> event_timestamp = [] then Inr st
           else
             (case strptime en (take 19 event_timestamp) of
                None \<Rightarrow> Inl (ValueError, s)
              | Some (d, t) \<Rightarrow>
                  (let doc = get_all_log s emp_no d in
                   if \<not> existing_punch s doc t
                   then
                     (let l = log_doc en ip s doc emp_no d; p = new_punch en ip s doc t in
                      if save_ok en s l p
                      then Inr (save_doc s doc l p, count + 1, skipped)
                      else
                        Inr (s\<lparr>error_log := error_log s
                                  @ [''['' @ label @ ''] Insert failed for employee '' @ emp_no]\<rparr>,
                             count, skipped))
                   else Inr (s, count, skipped + 1)))))"

fun for_events ::
  "env \<Rightarrow> string \<Rightarrow> string \<Rightarrow> store \<times> nat \<times> nat \<Rightarrow> event list \<Rightarrow> (store \<times> nat \<times> nat) result" where
  "for_events en label ip st [] = Inr st"
| "for_events en label ip st (ev # events) =
     (case process_event en label ip st ev of
        Inl err \<Rightarrow> Inl err
      | Inr st' \<Rightarrow> for_events en label ip st' events)"

text \<open>
  The \<^verbatim>\<open>while True\<close> loop. It ends only on an error, an empty page or a short
  page, so for a device that keeps answering full pages it never returns: the value is
  \<open>None\<close> then.
\<close>

partial_function (option) fetch_pages ::
  "env \<Rightarrow> string \<Rightarrow> string \<Rightarrow> device \<Rightarrow> store \<Rightarrow> nat \<Rightarrow> nat \<Rightarrow> nat \<Rightarrow> (store \<times> nat \<times> nat) result option" where
  "fetch_pages en label ip dev s count skipped position =
     (case dev position batch_size of
        None \<Rightarrow> Some (Inl (ConnectionError, s))
      | Some r \<Rightarrow>
          if status_code r \<noteq> 200 then Some (Inl (fetch_failed label r, s))
          else
            (case json r of
               None \<Rightarrow> Some (Inl (JSONDecodeError, s))
             | Some data \<Rightarrow>
                 (let events = (case InfoList data of None \<Rightarrow> [] | Some es \<Rightarrow> es) in
                  if events = [] then Some (Inr (s, count, skipped))
                  else
                    (case for_events en label ip (s, count, skipped) events of
                       Inl err \<Rightarrow> Some (Inl err)
                     | Inr (s', count', skipped') \<Rightarrow>
                         if length events < batch_size then Some (Inr (s', count', skipped'))
                         else fetch_pages en label ip dev s' count' skipped'
                                (position + length events)))))"

definition sync_for_single_device ::
  "env \<Rightarrow> string \<Rightarrow> string \<Rightarrow> device \<Rightarrow> store \<Rightarrow> (store \<times> nat \<times> nat) result option" where
  "sync_for_single_device en label ip dev s =
     (case dev 0 1 of
        None \<Rightarrow> Some (Inl (ConnectionError, s))
      | Some r \<Rightarrow>
          if status_code r \<noteq> 200 then Some (Inl (fetch_failed label r, s))
          else
            (case json r of
               None \<Rightarrow> Some (Inl (JSONDecodeError, s))
             | Some data \<Rightarrow>
                 (let total_records = (case totalMatches data of None \<Rightarrow> 0 | Some n \<Rightarrow> n) in
                  if total_records = 0 then Some (Inr (s, 0, 0))
                  else if total_records > 1500 then Some (Inl (too_many label total_records, s))
                  else fetch_pages en label ip dev s 0 0 0)))"

section \<open>The daily report (biometric_daily_report.py)\<close>




text \<open>The format \<^verbatim>\<open>{n:02}\<close> of an int.\<close>

definition fmt02 :: "int \<Rightarrow> string" where
  "fmt02 n =
     (if n < 0 then CHR ''-'' # str_nat (nat (- n))
      else if n < 10 then CHR ''0'' # str_nat (nat n)
      else str_nat (nat n))"








section \<open>Notions used in the statements\<close>

text \<open>
  A device employee number is skipped by the reducer when no Employee carries it as
  \<^verbatim>\<open>attendance_device_id\<close>, or when the Employee found is not Active.
\<close>

definition inactive_or_unknown :: "store \<Rightarrow> string \<Rightarrow> bool" where
  "inactive_or_unknown s emp_no =
     (case find (\<lambda>e. e_attendance_device_id e = emp_no) (employees s) of
        None \<Rightarrow> True
      | Some e \<Rightarrow> e_status e \<noteq> ''Active'')"

text \<open>The store a run leaves behind, whether it returned or raised.\<close>

definition result_store :: "(store \<times> nat \<times> nat) result \<Rightarrow> store" where
  "result_store r = (case r of Inl (err, s) \<Rightarrow> s | Inr (s, c, a) \<Rightarrow> s)"

text \<open>
  \<open>marked N s s'\<close>: from \<open>s\<close> to \<open>s'\<close> the logs and employees are the same, and each
  punch is either untouched or has a name in \<open>N\<close> and is now synced.
\<close>

definition touched :: "docname set \<Rightarrow> punch \<Rightarrow> punch \<Rightarrow> bool" where
  "touched N p p' \<longleftrightarrow>
     p' = p \<or> (p_name p \<in> N \<and> p_synced_to_employee_checkin p' \<and> p_name p' = p_name p
                \<and> p_parent p' = p_parent p)"

definition marked :: "docname set \<Rightarrow> store \<Rightarrow> store \<Rightarrow> bool" where
  "marked N s s' \<longleftrightarrow>
     logs s' = logs s \<and> employees s' = employees s \<and>
     list_all2 (touched N) (punches s) (punches s')"

definition all_synced :: "docname \<Rightarrow> store \<Rightarrow> bool" where
  "all_synced n s \<longleftrightarrow>
     (\<forall>p\<in>set (punches s). p_name p = n \<longrightarrow> p_synced_to_employee_checkin p)"

text \<open>The idempotency key of the reducer: no two Checkin Events with the same (employee, time).\<close>

definition checkin_keys_distinct :: "store \<Rightarrow> bool" where
  "checkin_keys_distinct s \<longleftrightarrow> distinct (map (\<lambda>c. (c_employee c, c_time c)) (checkins s))"

text \<open>Document names are primary keys of their tables.\<close>

definition names_distinct :: "store \<Rightarrow> bool" where
  "names_distinct s \<longleftrightarrow> distinct (map p_name (punches s)) \<and> distinct (map l_name (logs s))"

text \<open>The punch names of the rows of a list of groups, and the grouping key of a row.\<close>

definition group_names :: "((string \<times> date) \<times> prow list) list \<Rightarrow> docname set" where
  "group_names gs = (\<Union>g\<in>set gs. punch_name ` set (snd g))"

definition row_key :: "prow \<Rightarrow> string \<times> date" where
  "row_key r = (employee_no r, event_date r)"

section \<open>Concrete data for the examples\<close>

text \<open>
  \<^verbatim>\<open>datetime.strptime(s, "%Y-%m-%dT%H:%M:%S")\<close> on the fixed-width spelling
  \<^verbatim>\<open>YYYY-MM-DDTHH:MM:SS\<close> that the devices send. Python accepts a few more
  spellings (fields of one digit); this function rejects them, and it is used for
  concrete runs only: every general statement below holds for any parser.
\<close>

definition digit_val :: "char \<Rightarrow> nat option" where
  "digit_val ch =
     (if ch = CHR ''0'' then Some 0 else if ch = CHR ''1'' then Some 1
      else if ch = CHR ''2'' then Some 2 else if ch = CHR ''3'' then Some 3
      else if ch = CHR ''4'' then Some 4 else if ch = CHR ''5'' then Some 5
      else if ch = CHR ''6'' then Some 6 else if ch = CHR ''7'' then Some 7
      else if ch = CHR ''8'' then Some 8 else if ch = CHR ''9'' then Some 9
      else None)"

fun digits_val :: "nat \<Rightarrow> string \<Rightarrow> nat option" where
  "digits_val acc [] = Some acc"
| "digits_val acc (ch # cs) =
     (case digit_val ch of None \<Rightarrow> None | Some v \<Rightarrow> digits_val (10 * acc + v) cs)"

definition days_in_month :: "nat \<Rightarrow> nat \<Rightarrow> nat" where
  "days_in_month y m =
     (if m = 2 then (if y mod 4 = 0 \<and> (y mod 100 \<noteq> 0 \<or> y mod 400 = 0) then 29 else 28)
      else if m = 4 \<or> m = 6 \<or> m = 9 \<or> m = 11 then 30 else 31)"

definition strptime_iso :: "string \<Rightarrow> datetime option" where
  "strptime_iso s =
     (if length s \<noteq> 19 \<or> s ! 4 \<noteq> CHR ''-'' \<or> s ! 7 \<noteq> CHR ''-'' \<or> s ! 10 \<noteq> CHR ''T''
         \<or> s ! 13 \<noteq> CHR '':'' \<or> s ! 16 \<noteq> CHR '':'' then None
      else
        (case (digits_val 0 (take 4 s), digits_val 0 (take 2 (drop 5 s)),
               digits_val 0 (take 2 (drop 8 s)), digits_val 0 (take 2 (drop 11 s)),
               digits_val 0 (take 2 (drop 14 s)), digits_val 0 (take 2 (drop 17 s))) of
           (Some y, Some m, Some d, Some hh, Some mm, Some ss) \<Rightarrow>
             if 1 \<le> y \<and> 1 \<le> m \<and> m \<le> 12 \<and> 1 \<le> d \<and> d \<le> days_in_month y m
                \<and> hh < 24 \<and> mm < 60 \<and> ss < 60
             then Some ((y, m, d), hh * 3600 + mm * 60 + ss)
             else None
         | _ \<Rightarrow> None))"

text \<open>
  An installation with every optional column, where the host application accepts every
  document, at the fallback coordinates of \<^verbatim>\<open>get_geolocation\<close>.
\<close>

definition env0 :: env where
  "env0 =
     \<lparr>punch_has_employee_checkin = True, checkin_has_biometric_log = True,
      checkin_has_biometric_punch = True, checkin_has_device_id = True,
      checkin_has_latitude = True, checkin_has_longitude = True,
      checkin_has_geo_latitude = True, checkin_has_geo_longitude = True,
      log_has_device_id = True, punch_has_device_id = True,
      geolocation = (31.4812872, 74.2520218),
      insert_ok = (\<lambda>s c. True), save_ok = (\<lambda>s l p. True), strptime = strptime_iso\<rparr>"

text \<open>The same installation, where the host application refuses every Employee Checkin.\<close>

definition env_refusing :: env where
  "env_refusing = env0\<lparr>insert_ok := (\<lambda>s c. False)\<rparr>"

definition emp_active :: employee where
  "emp_active = \<lparr>e_name = ''HR-EMP-00001'', e_attendance_device_id = ''101'', e_status = ''Active''\<rparr>"

definition emp_left :: employee where
  "emp_left = \<lparr>e_name = ''HR-EMP-00002'', e_attendance_device_id = ''102'', e_status = ''Left''\<rparr>"

definition emp_third :: employee where
  "emp_third = \<lparr>e_name = ''HR-EMP-00003'', e_attendance_device_id = ''103'', e_status = ''Active''\<rparr>"

definition emp_fourth :: employee where
  "emp_fourth = \<lparr>e_name = ''HR-EMP-00004'', e_attendance_device_id = ''104'', e_status = ''Active''\<rparr>"

text \<open>The same installation, where the host application refuses the third employee's Checkins.\<close>

definition env_picky :: env where
  "env_picky = env0\<lparr>insert_ok := (\<lambda>s c. c_employee c \<noteq> ''HR-EMP-00003'')\<rparr>"

definition a_log :: "docname \<Rightarrow> string \<Rightarrow> attendance_log" where
  "a_log n emp_no =
     \<lparr>l_name = n, l_employee_no = emp_no, l_event_date = (2024, 1, 15),
      l_device_id = Some ''192.168.1.64''\<rparr>"

definition a_punch :: "docname \<Rightarrow> docname \<Rightarrow> nat \<Rightarrow> nat \<Rightarrow> punch" where
  "a_punch n par h m =
     \<lparr>p_name = n, p_parent = par, p_punch_time = Some (h * 3600 + m * 60),
      p_punch_type = ''Auto'', p_synced_to_employee_checkin = False,
      p_device_id = Some ''192.168.1.64'', p_employee_checkin = None\<rparr>"

definition a_store :: "attendance_log list \<Rightarrow> punch list \<Rightarrow> employee_checkin list \<Rightarrow> store" where
  "a_store ls ps cs =
     \<lparr>logs = ls, punches = ps, employees = [emp_active, emp_left, emp_third, emp_fourth],
      checkins = cs,
      error_log = [], next_name = 100\<rparr>"

text \<open>One punch at 08:00 of the active employee.\<close>

definition store_one :: store where
  "store_one = a_store [a_log 1 ''101''] [a_punch 2 1 8 0] []"

text \<open>The day of the specification: punches at 08:00, 12:00, 13:00 and 17:30.\<close>

definition store_day :: store where
  "store_day =
     a_store [a_log 1 ''101''] [a_punch 2 1 8 0, a_punch 3 1 12 0, a_punch 4 1 13 0, a_punch 5 1 17 30] []"

text \<open>A punch at midnight and one at 08:00 of the active employee.\<close>

definition store_midnight :: store where
  "store_midnight = a_store [a_log 1 ''101''] [a_punch 2 1 0 0, a_punch 3 1 8 0] []"

text \<open>The active employee's day, and a punch of the employee who left.\<close>

definition store_two :: store where
  "store_two =
     a_store [a_log 1 ''101'', a_log 6 ''102'']
       [a_punch 2 1 8 0, a_punch 3 1 17 30, a_punch 7 6 9 0] []"

text \<open>One punch each of the first, third and fourth employee.\<close>

definition store_three :: store where
  "store_three =
     a_store [a_log 1 ''101'', a_log 3 ''103'', a_log 5 ''104'']
       [a_punch 2 1 8 0, a_punch 4 3 8 5, a_punch 6 5 8 10] []"

text \<open>A day of two punches, with a Checkin Event already there at 08:00.\<close>

definition store_existing :: store where
  "store_existing =
     a_store [a_log 1 ''101''] [a_punch 2 1 8 0, a_punch 3 1 17 30]
       [\<lparr>c_name = 50, c_employee = ''HR-EMP-00001'', c_time = ((2024, 1, 15), 28800),
         c_log_type = IN, c_device_id = None, c_latitude = None, c_longitude = None,
         c_geo_latitude = None, c_geo_longitude = None, c_biometric_log = None,
         c_biometric_punch = None\<rparr>]"

text \<open>The query's row of an example punch, and a group of the example day.\<close>

definition a_row :: "docname \<Rightarrow> docname \<Rightarrow> nat \<Rightarrow> nat \<Rightarrow> string \<Rightarrow> prow" where
  "a_row n par h m emp_no = join_row (a_punch n par h m) (a_log par emp_no)"

definition a_group :: "string \<Rightarrow> prow list \<Rightarrow> (string \<times> date) \<times> prow list" where
  "a_group emp_no rows = ((emp_no, (2024, 1, 15)), rows)"

text \<open>Devices: one that answers every request with the same count, one that serves a list of events page by page.\<close>

definition an_event :: "string \<Rightarrow> string \<Rightarrow> event" where
  "an_event e ts = \<lparr>employeeNoString = Some e, ev_time = Some ts\<rparr>"

definition an_acs_event :: "int \<Rightarrow> event list \<Rightarrow> acs_event" where
  "an_acs_event n evs = \<lparr>totalMatches = Some n, InfoList = Some evs\<rparr>"

definition a_response :: "int \<Rightarrow> event list \<Rightarrow> response" where
  "a_response n evs = \<lparr>status_code = 200, resp_text = [], json = Some (an_acs_event n evs)\<rparr>"

definition ok_response :: "int \<Rightarrow> event list \<Rightarrow> response option" where
  "ok_response n evs = Some (a_response n evs)"

definition device_reporting :: "int \<Rightarrow> device" where
  "device_reporting n position max_results =
     ok_response n [an_event ''101'' ''2024-01-15T08:00:00+05:00'']"

definition paged_device :: "event list \<Rightarrow> device" where
  "paged_device evs position max_results =
     ok_response (int (length evs)) (take max_results (drop position evs))"

text \<open>The same installation, where the host application refuses to save the logs of employee 102.\<close>

definition env_save_picky :: env where
  "env_save_picky = env0\<lparr>save_ok := (\<lambda>s l p. l_employee_no l \<noteq> ''102'')\<rparr>"

definition store_empty :: store where
  "store_empty = a_store [] [] []"

text \<open>
  Three events of one page: employee 101 at 08:00:00, employee 102 at 08:01:00, and
  employee 101 at 08:00:00 once more.
\<close>

definition three_events :: "event list" where
  "three_events =
     [an_event ''101'' ''2024-01-15T08:00:00+05:00'',
      an_event ''102'' ''2024-01-15T08:01:00+05:00'',
      an_event ''101'' ''2024-01-15T08:00:00+05:00'']"

text \<open>Events of employee 101, one a minute from 08:00:00 on.\<close>

definition numbered_event :: "nat \<Rightarrow> event" where
  "numbered_event i =
     an_event ''101'' (''2024-01-15T08:'' @ fmt02 (int i) @ '':00+05:00'')"

definition many_events :: "nat \<Rightarrow> event list" where
  "many_events n = map numbered_event [0..<n]"

text \<open>What a store shows of its punches and Checkin Events, for the examples.\<close>

definition punch_flags :: "store \<Rightarrow> (docname \<times> bool) list" where
  "punch_flags s = map (\<lambda>p. (p_name p, p_synced_to_employee_checkin p)) (punches s)"

definition checkin_list :: "store \<Rightarrow> (string \<times> datetime \<times> log_type) list" where
  "checkin_list s = map (\<lambda>c. (c_employee c, c_time c, c_log_type c)) (checkins s)"

definition outcome :: "(store \<times> nat \<times> nat) result \<Rightarrow> (error + nat \<times> nat)" where
  "outcome r = (case r of Inl (err, s) \<Rightarrow> Inl err | Inr (s, c, a) \<Rightarrow> Inr (c, a))"

text \<open>
  The ingest's view of an event: its employee number and the date and time of day that
  the first 19 characters of its timestamp parse to, when it has both fields and the
  timestamp parses.
\<close>

definition event_key :: "env \<Rightarrow> event \<Rightarrow> (string \<times> date \<times> nat) option" where
  "event_key en ev =
     (case employeeNoString ev of
        None \<Rightarrow> None
      | Some e \<Rightarrow>
          if e = [] then None
          else
            (case ev_time ev of
               None \<Rightarrow> None
             | Some ts \<Rightarrow>
                 if ts = [] then None
                 else (case strptime en (take 19 ts) of
                         None \<Rightarrow> None
                       | Some (d, t) \<Rightarrow> Some (e, d, t))))"

text \<open>The ingest's duplicate test for an employee, date and time of day.\<close>

definition has_punch :: "store \<Rightarrow> string \<times> date \<times> nat \<Rightarrow> bool" where
  "has_punch s k = (case k of (e, d, t) \<Rightarrow> existing_punch s (get_all_log s e d) t)"

text \<open>
  Names are primary keys drawn from the counter: the logs' names are distinct, and no
  log is named, and no punch has a parent, beyond the counter.
\<close>

definition ingest_wf :: "store \<Rightarrow> bool" where
  "ingest_wf s \<longleftrightarrow>
     distinct (map l_name (logs s)) \<and>
     (\<forall>l\<in>set (logs s). l_name l < next_name s) \<and>
     (\<forall>p\<in>set (punches s). p_parent p < next_name s)"

text \<open>Events that are well-formed, pairwise distinct and not yet in the store.\<close>

definition fresh_events :: "env \<Rightarrow> store \<Rightarrow> event list \<Rightarrow> bool" where
  "fresh_events en s evs \<longleftrightarrow>
     list_all (\<lambda>ev. case event_key en ev of None \<Rightarrow> False | Some k \<Rightarrow> \<not> has_punch s k) evs \<and>
     distinct (map (event_key en) evs)"

text \<open>The events of the page a device returns at a position, when the request succeeds.\<close>

definition page_of :: "device \<Rightarrow> nat \<Rightarrow> event list option" where
  "page_of dev position =
     (case dev position batch_size of
        None \<Rightarrow> None
      | Some r \<Rightarrow>
          if status_code r \<noteq> 200 then None
          else (case json r of
                  None \<Rightarrow> None
                | Some data \<Rightarrow> Some (case InfoList data of None \<Rightarrow> [] | Some es \<Rightarrow> es)))"

text \<open>A returned result whose count is the number of punches added to the store.\<close>

definition counted :: "store \<Rightarrow> nat \<Rightarrow> (store \<times> nat \<times> nat) result \<Rightarrow> bool" where
  "counted s c res =
     (case res of Inl err \<Rightarrow> True
      | Inr (s', c', k') \<Rightarrow> length (punches s') + c = length (punches s) + c')"

section \<open>Properties of the daily report\<close>





section \<open>Properties of the reducer\<close>

lemma mark_synced_fields [simp]:
  "p_name (mark_synced link p) = p_name p"
  "p_parent (mark_synced link p) = p_parent p"
  "p_punch_time (mark_synced link p) = p_punch_time p"
  "p_synced_to_employee_checkin (mark_synced link p)"
  by (cases link; simp add: mark_synced_def)+

lemma touched_refl: "touched N p p"
  by (simp add: touched_def)

lemma touched_mono: "touched N p p' \<Longrightarrow> N \<subseteq> M \<Longrightarrow> touched M p p'"
  unfolding touched_def by blast

lemma touched_trans: "touched N a b \<Longrightarrow> touched N b c \<Longrightarrow> touched N a c"
  unfolding touched_def by metis

lemma marked_refl: "marked N s s"
  by (simp add: marked_def list_all2_refl touched_refl)

lemma marked_mono: "marked N s s' \<Longrightarrow> N \<subseteq> M \<Longrightarrow> marked M s s'"
  unfolding marked_def
  using list_all2_mono[of "touched N" "punches s" "punches s'" "touched M"] touched_mono
  by blast

lemma marked_trans:
  assumes "marked N s s'" and "marked N s' s''"
  shows "marked N s s''"
proof -
  have "list_all2 (touched N) (punches s) (punches s'')"
    using assms list_all2_trans[of "touched N" "touched N" "touched N"] touched_trans
    unfolding marked_def by blast
  then show ?thesis using assms by (simp add: marked_def)
qed

lemma marked_set_synced: "marked {n} s (set_synced n link s)"
proof -
  have "list_all2 (touched {n}) (punches s) (punches (set_synced n link s))"
    by (simp add: set_synced_def list_all2_map2 list_all2_same touched_def)
  then show ?thesis
    by (simp add: marked_def set_synced_def)
qed

lemma punches_set_synced:
  "punches (set_synced n link s) = map (\<lambda>p. if p_name p = n then mark_synced link p else p) (punches s)"
  by (simp add: set_synced_def)

lemma all_synced_set_synced: "all_synced n (set_synced n link s)"
  unfolding all_synced_def
proof (intro ballI impI)
  fix p assume m: "p \<in> set (punches (set_synced n link s))" and n: "p_name p = n"
  from m have "p \<in> (\<lambda>p. if p_name p = n then mark_synced link p else p) ` set (punches s)"
    by (simp only: punches_set_synced set_map)
  then obtain q where p: "p = (if p_name q = n then mark_synced link q else q)"
    by (rule imageE)
  show "p_synced_to_employee_checkin p"
  proof (cases "p_name q = n")
    case True
    then show ?thesis using p by simp
  next
    case False
    then show ?thesis using p n by simp
  qed
qed

lemma all_synced_marked:
  assumes "all_synced n s" and "marked N s s'"
  shows "all_synced n s'"
  unfolding all_synced_def
proof (intro ballI impI)
  fix p' assume p': "p' \<in> set (punches s')" "p_name p' = n"
  have l: "list_all2 (touched N) (punches s) (punches s')"
    using assms(2) by (simp add: marked_def)
  from p'(1) obtain i where i: "i < length (punches s')" "punches s' ! i = p'"
    by (auto simp: in_set_conv_nth)
  with l have len: "i < length (punches s)" by (simp add: list_all2_lengthD)
  from l i len have "touched N (punches s ! i) p'"
    by (auto simp: list_all2_conv_all_nth)
  then have "p' = punches s ! i \<or> p_synced_to_employee_checkin p'"
    by (auto simp: touched_def)
  moreover have "punches s ! i \<in> set (punches s)" using len by simp
  ultimately show "p_synced_to_employee_checkin p'"
    using assms(1) p'(2) by (auto simp: all_synced_def)
qed


lemma set_synced_frame [simp]:
  "logs (set_synced n link s) = logs s"
  "employees (set_synced n link s) = employees s"
  "checkins (set_synced n link s) = checkins s"
  "next_name (set_synced n link s) = next_name s"
  "error_log (set_synced n link s) = error_log s"
  by (simp_all add: set_synced_def)

lemma create_checkin_Inl:
  "create_checkin_for_punch en emp d (s, c, a) x lt = Inl (err, s') \<Longrightarrow> s' = s"
  by (simp add: create_checkin_for_punch_def Let_def split: option.splits if_splits)

lemma create_checkin_Inr:
  assumes "create_checkin_for_punch en emp d (s, c, a) x lt = Inr (s', c', a')"
  shows "marked {punch_name x} s s' \<and> all_synced (punch_name x) s'"
proof -
  obtain link s0 where s': "s' = set_synced (punch_name x) link s0"
    and s0: "logs s0 = logs s" "employees s0 = employees s" "punches s0 = punches s"
    using assms
    by (auto simp: create_checkin_for_punch_def Let_def split: option.splits if_splits)
  have "marked {punch_name x} s0 s'"
    unfolding s' by (rule marked_set_synced)
  then have "marked {punch_name x} s s'"
    using s0 by (simp add: marked_def)
  moreover have "all_synced (punch_name x) s'"
    unfolding s' by (rule all_synced_set_synced)
  ultimately show ?thesis by simp
qed

lemma mark_middle_marked: "marked (punch_name ` set ms) s (mark_middle s ms)"
  unfolding mark_middle_def
proof (induction ms arbitrary: s)
  case Nil
  show ?case by (simp add: marked_refl)
next
  case (Cons m ms)
  have 1: "marked (punch_name ` set (m # ms)) s (set_synced (punch_name m) None s)"
    by (rule marked_mono[OF marked_set_synced]) simp
  have 2: "marked (punch_name ` set (m # ms)) (set_synced (punch_name m) None s)
      (foldl (\<lambda>s' p. set_synced (punch_name p) None s') (set_synced (punch_name m) None s) ms)"
    by (rule marked_mono[OF Cons.IH]) auto
  show ?case using marked_trans[OF 1 2] by simp
qed

lemma mark_middle_all_synced:
  "r \<in> set ms \<Longrightarrow> all_synced (punch_name r) (mark_middle s ms)"
  unfolding mark_middle_def
proof (induction ms arbitrary: s)
  case Nil
  then show ?case by simp
next
  case (Cons m ms)
  show ?case
  proof (cases "r \<in> set ms")
    case True
    then show ?thesis using Cons.IH by simp
  next
    case False
    then have "r = m" using Cons.prems by simp
    then have "all_synced (punch_name r) (set_synced (punch_name m) None s)"
      by (simp add: all_synced_set_synced)
    then have "all_synced (punch_name r) (mark_middle (set_synced (punch_name m) None s) ms)"
      using all_synced_marked mark_middle_marked by blast
    then show ?thesis by (simp add: mark_middle_def)
  qed
qed

lemma mark_middle_checkins [simp]: "checkins (mark_middle s ms) = checkins s"
  unfolding mark_middle_def by (induction ms arbitrary: s) simp_all

lemma set_sort_by_time: "sort_by_time g = Inr ys \<Longrightarrow> set ys = set g"
  by (auto simp: sort_by_time_def split: if_splits)

lemma process_group_skip:
  "emp_no = [] \<or> inactive_or_unknown s emp_no \<Longrightarrow>
   process_group en (s, c, a) ((emp_no, d), grp) = Inr (s, c, a)"
  by (auto simp: process_group_def inactive_or_unknown_def split: option.splits)

lemma process_group_activeE:
  assumes "emp_no \<noteq> []" and "\<not> inactive_or_unknown s emp_no"
    and "process_group en (s, c, a) ((emp_no, d), grp) = Inr (s', c', a')"
  obtains e x xs s1 c1 a1 s2 where
    "find (\<lambda>e. e_attendance_device_id e = emp_no) (employees s) = Some e"
    "sort_by_time grp = Inr (x # xs)"
    "create_checkin_for_punch en (e_name e) d (s, c, a) x IN = Inr (s1, c1, a1)"
    "(if punch_name (last (x # xs)) \<noteq> punch_name x
      then create_checkin_for_punch en (e_name e) d (s1, c1, a1) (last (x # xs)) OUT
      else Inr (s1, c1, a1)) = Inr (s2, c', a')"
    "s' = mark_middle s2 (filter (\<lambda>p. punch_name p \<noteq> punch_name x
            \<and> punch_name p \<noteq> punch_name (last (x # xs))) (x # xs))"
proof -
  from assms(2) obtain e where e: "find (\<lambda>e. e_attendance_device_id e = emp_no) (employees s) = Some e"
    and act: "e_status e = ''Active''"
    by (auto simp: inactive_or_unknown_def split: option.splits)
  from assms(1,3) e act obtain x xs where srt: "sort_by_time grp = Inr (x # xs)"
    by (auto simp: process_group_def split: sum.splits list.splits)
  from assms(1,3) e act srt obtain s1 c1 a1 where
    c1: "create_checkin_for_punch en (e_name e) d (s, c, a) x IN = Inr (s1, c1, a1)"
    by (auto simp: process_group_def Let_def split: sum.splits)
  from assms(1,3) e act srt c1 obtain s2 where
    c2: "(if punch_name (last (x # xs)) \<noteq> punch_name x
      then create_checkin_for_punch en (e_name e) d (s1, c1, a1) (last (x # xs)) OUT
      else Inr (s1, c1, a1)) = Inr (s2, c', a')"
    and s': "s' = mark_middle s2 (filter (\<lambda>p. punch_name p \<noteq> punch_name x
            \<and> punch_name p \<noteq> punch_name (last (x # xs))) (x # xs))"
    by (auto simp add: process_group_def Let_def simp del: last.simps filter.simps
        split: sum.splits prod.splits)
  show ?thesis using that[OF e srt c1 c2 s'] .
qed


lemma inactive_or_unknown_cong:
  "employees s' = employees s \<Longrightarrow> inactive_or_unknown s' k = inactive_or_unknown s k"
  by (simp add: inactive_or_unknown_def)

lemma process_group_Inl:
  assumes "process_group en (s, c, a) ((emp_no, d), grp) = Inl (err, s')"
  shows "s' = s \<or> (\<exists>e x xs c1 a1.
      find (\<lambda>e. e_attendance_device_id e = emp_no) (employees s) = Some e
      \<and> sort_by_time grp = Inr (x # xs)
      \<and> create_checkin_for_punch en (e_name e) d (s, c, a) x IN = Inr (s', c1, a1))"
  using assms
  by (auto simp add: process_group_def Let_def simp del: last.simps filter.simps
      split: sum.splits prod.splits option.splits if_splits list.splits
      dest: create_checkin_Inl)

lemma process_group_marked:
  "marked (punch_name ` set grp) s (result_store (process_group en (s, c, a) ((emp_no, d), grp)))"
proof (cases "process_group en (s, c, a) ((emp_no, d), grp)")
  case (Inl b)
  obtain err s' where b: "b = (err, s')" by (cases b)
  from process_group_Inl[OF Inl[unfolded b]] show ?thesis
  proof
    assume "s' = s"
    then show ?thesis by (simp add: Inl b result_store_def marked_refl)
  next
    assume "\<exists>e x xs c1 a1.
      find (\<lambda>e. e_attendance_device_id e = emp_no) (employees s) = Some e
      \<and> sort_by_time grp = Inr (x # xs)
      \<and> create_checkin_for_punch en (e_name e) d (s, c, a) x IN = Inr (s', c1, a1)"
    then obtain e :: employee and x xs c1 a1 where srt: "sort_by_time grp = Inr (x # xs)"
      and cr: "create_checkin_for_punch en (e_name e) d (s, c, a) x IN = Inr (s', c1, a1)"
      by blast
    have "x \<in> set grp" using set_sort_by_time[OF srt] by auto
    then have "marked (punch_name ` set grp) s s'"
      using create_checkin_Inr[OF cr] marked_mono[of "{punch_name x}" s s' "punch_name ` set grp"]
      by blast
    then show ?thesis by (simp add: Inl b result_store_def)
  qed
next
  case (Inr b)
  obtain s' c' a' where b: "b = (s', c', a')" by (cases b)
  show ?thesis
  proof (cases "emp_no = [] \<or> inactive_or_unknown s emp_no")
    case True
    then show ?thesis
      using process_group_skip[OF True, of en c a d grp]
      by (simp add: result_store_def marked_refl)
  next
    case False
    then have ne: "emp_no \<noteq> []" and act: "\<not> inactive_or_unknown s emp_no" by auto
    show ?thesis
    proof (rule process_group_activeE[OF ne act Inr[unfolded b]])
    fix e :: employee and x xs s1 c1 a1 s2
    assume fnd: "find (\<lambda>e. e_attendance_device_id e = emp_no) (employees s) = Some e" and
      srt: "sort_by_time grp = Inr (x # xs)" and
      cr1: "create_checkin_for_punch en (e_name e) d (s, c, a) x IN = Inr (s1, c1, a1)" and
      cr2: "(if punch_name (last (x # xs)) \<noteq> punch_name x
        then create_checkin_for_punch en (e_name e) d (s1, c1, a1) (last (x # xs)) OUT
        else Inr (s1, c1, a1)) = Inr (s2, c', a')" and
      s': "s' = mark_middle s2 (filter (\<lambda>p. punch_name p \<noteq> punch_name x
            \<and> punch_name p \<noteq> punch_name (last (x # xs))) (x # xs))"
    let ?N = "punch_name ` set grp"
    have sg: "set (x # xs) = set grp" using set_sort_by_time[OF srt] .
    have xin: "x \<in> set grp" using sg by auto
    have lin: "last (x # xs) \<in> set grp" using sg last_in_set[of "x # xs"] by blast
    have m1: "marked ?N s s1"
      using create_checkin_Inr[OF cr1] xin marked_mono[of "{punch_name x}" s s1 ?N] by blast
    have m2: "marked ?N s1 s2"
    proof (cases "punch_name (last (x # xs)) \<noteq> punch_name x")
      case True
      then have "create_checkin_for_punch en (e_name e) d (s1, c1, a1) (last (x # xs)) OUT
          = Inr (s2, c', a')" using cr2 by simp
      from create_checkin_Inr[OF this] show ?thesis
        using lin marked_mono[of "{punch_name (last (x # xs))}" s1 s2 ?N] by blast
    next
      case False
      then have "s2 = s1" using cr2 by simp
      then show ?thesis by (simp add: marked_refl)
    qed
    have m3: "marked ?N s2 s'"
      unfolding s'
      by (rule marked_mono[OF mark_middle_marked]) (use sg in auto)
    show ?thesis
      using marked_trans[OF marked_trans[OF m1 m2] m3]
      by (simp add: Inr b result_store_def)
    qed
  qed
qed

lemma process_group_synced:
  assumes ne: "emp_no \<noteq> []" and act: "\<not> inactive_or_unknown s emp_no"
    and run: "process_group en (s, c, a) ((emp_no, d), grp) = Inr (s', c', a')"
    and r: "r \<in> set grp"
  shows "all_synced (punch_name r) s'"
proof (rule process_group_activeE[OF ne act run])
  fix e :: employee and x xs s1 c1 a1 s2
  assume fnd: "find (\<lambda>e. e_attendance_device_id e = emp_no) (employees s) = Some e" and
    srt: "sort_by_time grp = Inr (x # xs)" and
    cr1: "create_checkin_for_punch en (e_name e) d (s, c, a) x IN = Inr (s1, c1, a1)" and
    cr2: "(if punch_name (last (x # xs)) \<noteq> punch_name x
      then create_checkin_for_punch en (e_name e) d (s1, c1, a1) (last (x # xs)) OUT
      else Inr (s1, c1, a1)) = Inr (s2, c', a')" and
    s': "s' = mark_middle s2 (filter (\<lambda>p. punch_name p \<noteq> punch_name x
          \<and> punch_name p \<noteq> punch_name (last (x # xs))) (x # xs))"
  let ?mid = "filter (\<lambda>p. punch_name p \<noteq> punch_name x
          \<and> punch_name p \<noteq> punch_name (last (x # xs))) (x # xs)"
  have sg: "set (x # xs) = set grp" using set_sort_by_time[OF srt] .
  have a1: "all_synced (punch_name x) s1" using create_checkin_Inr[OF cr1] by simp
  have m2: "marked (if punch_name (last (x # xs)) \<noteq> punch_name x
       then {punch_name (last (x # xs))} else {}) s1 s2"
    using cr2 create_checkin_Inr[of en "e_name e" d s1 c1 a1 "last (x # xs)" OUT s2 c' a']
    by (auto simp: marked_refl split: if_splits)
  have a2x: "all_synced (punch_name x) s2" using all_synced_marked[OF a1 m2] .
  have a2l: "all_synced (punch_name (last (x # xs))) s2"
  proof (cases "punch_name (last (x # xs)) \<noteq> punch_name x")
    case True
    then show ?thesis
      using cr2 create_checkin_Inr[of en "e_name e" d s1 c1 a1 "last (x # xs)" OUT s2 c' a']
      by simp
  next
    case False
    then show ?thesis using a2x by simp
  qed
  have m3: "marked (punch_name ` set ?mid) s2 s'"
    unfolding s' by (rule mark_middle_marked)
  from r sg have rin: "r \<in> set (x # xs)" by simp
  consider "punch_name r = punch_name x" | "punch_name r = punch_name (last (x # xs))"
    | "r \<in> set ?mid"
    using rin by auto
  then show "all_synced (punch_name r) s'"
  proof cases
    case 1
    then show ?thesis using all_synced_marked[OF a2x m3] by simp
  next
    case 2
    then show ?thesis using all_synced_marked[OF a2l m3] by simp
  next
    case 3
    then show ?thesis unfolding s' by (rule mark_middle_all_synced)
  qed
qed

lemma result_store_simps [simp]:
  "result_store (Inl (err, s)) = s"
  "result_store (Inr (s, c, a)) = s"
  by (simp_all add: result_store_def)

lemma marked_employees: "marked N s s' \<Longrightarrow> employees s' = employees s"
  by (simp add: marked_def)

lemma marked_logs: "marked N s s' \<Longrightarrow> logs s' = logs s"
  by (simp add: marked_def)

lemma group_names_Cons: "group_names (g # gs) = punch_name ` set (snd g) \<union> group_names gs"
  by (simp add: group_names_def)

lemma for_groups_marked:
  "marked (group_names gs) s (result_store (for_groups en (s, c, a) gs))"
proof (induction gs arbitrary: s c a)
  case Nil
  show ?case by (simp add: marked_refl)
next
  case (Cons g gs)
  obtain emp_no d grp where g: "g = ((emp_no, d), grp)" by (cases g) auto
  have pg: "marked (punch_name ` set (snd g)) s (result_store (process_group en (s, c, a) g))"
    unfolding g by (simp add: process_group_marked)
  show ?case
  proof (cases "process_group en (s, c, a) g")
    case (Inl b)
    then have "result_store (for_groups en (s, c, a) (g # gs)) = result_store (process_group en (s, c, a) g)"
      by simp
    then show ?thesis
      using marked_mono[OF pg, of "group_names (g # gs)"] by (simp add: group_names_Cons)
  next
    case (Inr b)
    obtain s1 c1 a1 where b: "b = (s1, c1, a1)" by (cases b)
    have 1: "marked (group_names (g # gs)) s s1"
      using marked_mono[OF pg, of "group_names (g # gs)"] by (simp add: Inr b group_names_Cons)
    have 2: "marked (group_names (g # gs)) s1 (result_store (for_groups en (s1, c1, a1) gs))"
      using marked_mono[OF Cons.IH[of s1 c1 a1], of "group_names (g # gs)"]
      by (simp add: group_names_Cons)
    show ?thesis using marked_trans[OF 1 2] by (simp add: Inr b)
  qed
qed

lemma for_groups_synced:
  assumes "for_groups en (s, c, a) gs = Inr (s', c', a')"
    and "((emp_no, d), grp) \<in> set gs" and "emp_no \<noteq> []" and "\<not> inactive_or_unknown s emp_no"
    and "r \<in> set grp"
  shows "all_synced (punch_name r) s'"
  using assms
proof (induction gs arbitrary: s c a)
  case Nil
  then show ?case by simp
next
  case (Cons g gs)
  from Cons.prems(1) obtain s1 c1 a1 where
    pg: "process_group en (s, c, a) g = Inr (s1, c1, a1)" and
    rest: "for_groups en (s1, c1, a1) gs = Inr (s', c', a')"
    by (auto split: sum.splits)
  obtain k grp0 where g: "g = (k, grp0)" by (cases g)
  obtain e0 d0 where k: "k = (e0, d0)" by (cases k)
  have m1: "marked (punch_name ` set grp0) s s1"
    using process_group_marked[of grp0 s en c a e0 d0] pg by (simp add: g k)
  have emp1: "employees s1 = employees s" using marked_employees[OF m1] .
  have m2: "marked (group_names gs) s1 s'"
    using for_groups_marked[of gs s1 en c1 a1] rest by simp
  show ?case
  proof (cases "g = ((emp_no, d), grp)")
    case True
    then have "process_group en (s, c, a) ((emp_no, d), grp) = Inr (s1, c1, a1)"
      using pg by simp
    from process_group_synced[OF Cons.prems(3,4) this Cons.prems(5)]
    have "all_synced (punch_name r) s1" .
    then show ?thesis using all_synced_marked[OF _ m2] by blast
  next
    case False
    then have "((emp_no, d), grp) \<in> set gs" using Cons.prems(2) by auto
    moreover have "\<not> inactive_or_unknown s1 emp_no"
      using Cons.prems(4) inactive_or_unknown_cong[OF emp1] by simp
    ultimately show ?thesis
      using Cons.IH[OF rest _ Cons.prems(3) _ Cons.prems(5)] by blast
  qed
qed

lemma for_groups_all_skipped:
  assumes "\<forall>g\<in>set gs. fst (fst g) = [] \<or> inactive_or_unknown s (fst (fst g))"
  shows "for_groups en (s, c, a) gs = Inr (s, c, a)"
  using assms
proof (induction gs)
  case Nil
  show ?case by simp
next
  case (Cons g gs)
  obtain emp_no d grp where g: "g = ((emp_no, d), grp)" by (cases g) auto
  have "process_group en (s, c, a) g = Inr (s, c, a)"
    unfolding g using Cons.prems by (intro process_group_skip) (simp add: g)
  then show ?case using Cons by simp
qed

lemma setdefault_append_keys:
  "fst ` set (setdefault_append k v g) = insert k (fst ` set g)"
  by (induction k v g rule: setdefault_append.induct) auto

lemma setdefault_append_has:
  "\<exists>vs. (k, vs) \<in> set (setdefault_append k v g) \<and> v \<in> set vs"
  by (induction k v g rule: setdefault_append.induct) auto

lemma setdefault_append_keeps:
  "(k', vs) \<in> set g \<Longrightarrow> \<exists>vs'. (k', vs') \<in> set (setdefault_append k v g) \<and> set vs \<subseteq> set vs'"
  by (induction k v g rule: setdefault_append.induct) auto

lemma setdefault_append_from:
  "(k', vs') \<in> set (setdefault_append k v g) \<Longrightarrow> r \<in> set vs' \<Longrightarrow>
     (k' = k \<and> r = v) \<or> (\<exists>vs. (k', vs) \<in> set g \<and> r \<in> set vs)"
  by (induction k v g rule: setdefault_append.induct) (auto split: if_splits)

lemma setdefault_append_distinct:
  "distinct (map fst g) \<Longrightarrow> distinct (map fst (setdefault_append k v g))"
proof (induction k v g rule: setdefault_append.induct)
  case (1 k v)
  show ?case by simp
next
  case (2 k v k' vs g)
  show ?case
  proof (cases "k' = k")
    case True
    then show ?thesis using 2 by simp
  next
    case False
    have "k' \<notin> fst ` set (setdefault_append k v g)"
      using 2(2) False by (simp add: setdefault_append_keys)
    then show ?thesis using 2 False by simp
  qed
qed

lemma group_fold_keys:
  "fst ` set (foldl (\<lambda>g p. setdefault_append (row_key p) p g) acc rows)
     = fst ` set acc \<union> row_key ` set rows"
  by (induction rows arbitrary: acc) (auto simp: setdefault_append_keys)

lemma group_fold_keeps:
  "(k, vs) \<in> set acc \<Longrightarrow>
   \<exists>vs'. (k, vs') \<in> set (foldl (\<lambda>g p. setdefault_append (row_key p) p g) acc rows)
      \<and> set vs \<subseteq> set vs'"
proof (induction rows arbitrary: acc vs)
  case Nil
  then show ?case by auto
next
  case (Cons x xs)
  from setdefault_append_keeps[OF Cons.prems, of "row_key x" x]
  obtain vs1 where 1: "(k, vs1) \<in> set (setdefault_append (row_key x) x acc)" "set vs \<subseteq> set vs1"
    by blast
  from Cons.IH[OF 1(1)] obtain vs' where
    "(k, vs') \<in> set (foldl (\<lambda>g p. setdefault_append (row_key p) p g)
        (setdefault_append (row_key x) x acc) xs)" "set vs1 \<subseteq> set vs'"
    by blast
  then show ?case using 1(2) by auto
qed

lemma group_fold_has:
  "r \<in> set rows \<Longrightarrow>
   \<exists>vs. (row_key r, vs) \<in> set (foldl (\<lambda>g p. setdefault_append (row_key p) p g) acc rows)
      \<and> r \<in> set vs"
proof (induction rows arbitrary: acc)
  case Nil
  then show ?case by simp
next
  case (Cons x xs)
  show ?case
  proof (cases "r = x")
    case True
    from setdefault_append_has[of "row_key x" x acc]
    obtain vs1 where 1: "(row_key x, vs1) \<in> set (setdefault_append (row_key x) x acc)" "x \<in> set vs1"
      by blast
    from group_fold_keeps[OF 1(1), of xs] show ?thesis using True 1(2) by auto
  next
    case False
    then have "r \<in> set xs" using Cons.prems by simp
    from Cons.IH[OF this] show ?thesis by simp
  qed
qed

lemma group_fold_from:
  "(k, vs) \<in> set (foldl (\<lambda>g p. setdefault_append (row_key p) p g) acc rows) \<Longrightarrow> r \<in> set vs \<Longrightarrow>
     (r \<in> set rows \<and> row_key r = k) \<or> (\<exists>vs0. (k, vs0) \<in> set acc \<and> r \<in> set vs0)"
proof (induction rows arbitrary: acc)
  case Nil
  then show ?case by auto
next
  case (Cons x xs)
  from Cons.IH[of "setdefault_append (row_key x) x acc"] Cons.prems
  have "(r \<in> set xs \<and> row_key r = k)
      \<or> (\<exists>vs0. (k, vs0) \<in> set (setdefault_append (row_key x) x acc) \<and> r \<in> set vs0)"
    by simp
  then show ?case
  proof
    assume "r \<in> set xs \<and> row_key r = k"
    then show ?thesis by simp
  next
    assume "\<exists>vs0. (k, vs0) \<in> set (setdefault_append (row_key x) x acc) \<and> r \<in> set vs0"
    then obtain vs0 where "(k, vs0) \<in> set (setdefault_append (row_key x) x acc)" "r \<in> set vs0"
      by blast
    from setdefault_append_from[OF this] show ?thesis by auto
  qed
qed

lemma group_fold_distinct:
  "distinct (map fst acc) \<Longrightarrow>
   distinct (map fst (foldl (\<lambda>g p. setdefault_append (row_key p) p g) acc rows))"
  by (induction rows arbitrary: acc) (simp_all add: setdefault_append_distinct)

lemma group_punches_fold:
  "group_punches rows = foldl (\<lambda>g p. setdefault_append (row_key p) p g) [] rows"
  by (simp add: group_punches_def row_key_def)

lemma group_punches_keys: "fst ` set (group_punches rows) = row_key ` set rows"
  by (simp add: group_punches_fold group_fold_keys)

lemma group_punches_has:
  "r \<in> set rows \<Longrightarrow> \<exists>vs. (row_key r, vs) \<in> set (group_punches rows) \<and> r \<in> set vs"
  by (simp add: group_punches_fold group_fold_has)

lemma group_punches_from:
  "(k, vs) \<in> set (group_punches rows) \<Longrightarrow> r \<in> set vs \<Longrightarrow> r \<in> set rows \<and> row_key r = k"
  using group_fold_from[of k vs "[]" rows r] by (simp add: group_punches_fold)

lemma group_punches_distinct: "distinct (map fst (group_punches rows))"
  by (simp add: group_punches_fold group_fold_distinct)

lemma unsynced_punches_iff:
  "r \<in> set (unsynced_punches s) \<longleftrightarrow>
     (\<exists>p\<in>set (punches s). \<exists>l\<in>set (logs s).
        \<not> p_synced_to_employee_checkin p \<and> l_name l = p_parent p \<and> r = join_row p l)"
  by (auto simp: unsynced_punches_def)

lemma marked_unsynced_punch:
  assumes "marked N s s'" and "p' \<in> set (punches s')"
    and "\<not> p_synced_to_employee_checkin p'"
  shows "p' \<in> set (punches s)"
proof -
  have l: "list_all2 (touched N) (punches s) (punches s')"
    using assms(1) by (simp add: marked_def)
  from assms(2) obtain i where i: "i < length (punches s')" "punches s' ! i = p'"
    by (auto simp: in_set_conv_nth)
  with l have len: "i < length (punches s)" by (simp add: list_all2_lengthD)
  from l i len have "touched N (punches s ! i) p'"
    by (auto simp: list_all2_conv_all_nth)
  then have "p' = punches s ! i" using assms(3) by (auto simp: touched_def)
  then show ?thesis using len by simp
qed

lemma marked_unsynced_rows:
  assumes "marked N s s'"
  shows "set (unsynced_punches s') \<subseteq> set (unsynced_punches s)"
proof
  fix r assume "r \<in> set (unsynced_punches s')"
  then obtain p l where p: "p \<in> set (punches s')" "\<not> p_synced_to_employee_checkin p"
    and l: "l \<in> set (logs s')" "l_name l = p_parent p" and r: "r = join_row p l"
    unfolding unsynced_punches_iff by blast
  have "p \<in> set (punches s)" using marked_unsynced_punch[OF assms p] .
  moreover have "l \<in> set (logs s)" using l(1) marked_logs[OF assms] by simp
  ultimately show "r \<in> set (unsynced_punches s)"
    unfolding unsynced_punches_iff using p(2) l(2) r by blast
qed

lemma unsynced_row_not_all_synced:
  assumes "r \<in> set (unsynced_punches s)"
  shows "\<not> all_synced (punch_name r) s"
proof -
  from assms obtain p l where p: "p \<in> set (punches s)" "\<not> p_synced_to_employee_checkin p"
    and r: "r = join_row p l"
    unfolding unsynced_punches_iff by blast
  have "punch_name r = p_name p" using r by (simp add: join_row_def)
  then show ?thesis using p by (auto simp: all_synced_def)
qed

lemma rerun_rows_skipped:
  assumes run: "sync_punches_to_employee_checkin en s = Inr (s1, c1, a1)"
    and r: "r \<in> set (unsynced_punches s1)"
  shows "employee_no r = [] \<or> inactive_or_unknown s1 (employee_no r)"
proof (rule ccontr)
  assume neg: "\<not> (employee_no r = [] \<or> inactive_or_unknown s1 (employee_no r))"
  let ?rows = "unsynced_punches s"
  show False
  proof (cases "?rows = []")
    case True
    then have "s1 = s" using run by (simp add: sync_punches_to_employee_checkin_def)
    then show False using r True by simp
  next
    case False
    then have fg: "for_groups en (s, 0, 0) (group_punches ?rows) = Inr (s1, c1, a1)"
      using run by (simp add: sync_punches_to_employee_checkin_def Let_def)
    have m: "marked (group_names (group_punches ?rows)) s s1"
      using for_groups_marked[of "group_punches ?rows" s en 0 0] fg by simp
    have emp: "employees s1 = employees s" using marked_employees[OF m] .
    have rin: "r \<in> set ?rows" using marked_unsynced_rows[OF m] r by blast
    from group_punches_has[OF rin] obtain vs where
      g: "((employee_no r, event_date r), vs) \<in> set (group_punches ?rows)" and rv: "r \<in> set vs"
      by (auto simp: row_key_def)
    have ne: "employee_no r \<noteq> []" and act: "\<not> inactive_or_unknown s (employee_no r)"
      using neg inactive_or_unknown_cong[OF emp] by auto
    have "all_synced (punch_name r) s1"
      using for_groups_synced[OF fg g ne act rv] .
    then show False using unsynced_row_not_all_synced[OF r] by simp
  qed
qed

subsection \<open>Concrete runs\<close>

lemmas ex_defs = store_one_def store_day_def store_midnight_def store_two_def store_three_def
  store_existing_def a_store_def a_log_def a_punch_def emp_active_def emp_left_def
  emp_third_def emp_fourth_def env0_def env_refusing_def env_picky_def a_row_def a_group_def
  an_event_def ok_response_def a_response_def an_acs_event_def device_reporting_def paged_device_def env_save_picky_def
  store_empty_def three_events_def numbered_event_def

lemmas red_defs = sync_punches_to_employee_checkin_def unsynced_punches_def join_row_def
  group_punches_def process_group_def sort_by_time_def time_key_def
  create_checkin_for_punch_def get_datetime_def checkin_exists_def new_checkin_def
  pick_device_id_def set_synced_def mark_synced_def mark_middle_def

lemma run_one: "outcome (sync_punches_to_employee_checkin env0 store_one) = Inr (1, 0)"
  by (simp add: ex_defs red_defs outcome_def Let_def)

lemma outcome_Inr:
  "outcome r = Inr (c, a) \<Longrightarrow> r = Inr (result_store r, c, a)"
  by (cases r) (auto simp: outcome_def result_store_def)

subsection \<open>Running the reducer twice\<close>

text \<open>
  C1, as amended. When a run of the reducer has returned, a second run on the store it
  left returns created = 0 and alreadySynced = 0, and changes nothing: the query selects
  unsynced punches only, and the first run has marked every punch of every group it
  processed.
\<close>

theorem second_run_creates_nothing:
  assumes run: "sync_punches_to_employee_checkin en s = Inr (s1, created1, already1)"
  shows "sync_punches_to_employee_checkin en s1 = Inr (s1, 0, 0)"
proof -
  have "\<forall>g\<in>set (group_punches (unsynced_punches s1)).
      fst (fst g) = [] \<or> inactive_or_unknown s1 (fst (fst g))"
  proof
    fix g assume "g \<in> set (group_punches (unsynced_punches s1))"
    then have "fst g \<in> row_key ` set (unsynced_punches s1)"
      using group_punches_keys[of "unsynced_punches s1"] by force
    then obtain r where r: "r \<in> set (unsynced_punches s1)" and k: "fst g = row_key r"
      by blast
    from rerun_rows_skipped[OF run r] show "fst (fst g) = [] \<or> inactive_or_unknown s1 (fst (fst g))"
      by (simp add: k row_key_def)
  qed
  from for_groups_all_skipped[OF this]
  have "for_groups en (s1, 0, 0) (group_punches (unsynced_punches s1)) = Inr (s1, 0, 0)" .
  then show ?thesis by (simp add: sync_punches_to_employee_checkin_def Let_def)
qed

theorem second_run_creates_nothing_witness:
  "sync_punches_to_employee_checkin env0 store_one
     = Inr (result_store (sync_punches_to_employee_checkin env0 store_one), 1, 0) \<and>
   sync_punches_to_employee_checkin env0
       (result_store (sync_punches_to_employee_checkin env0 store_one))
     = Inr (result_store (sync_punches_to_employee_checkin env0 store_one), 0, 0)"
proof -
  have 1: "sync_punches_to_employee_checkin env0 store_one
     = Inr (result_store (sync_punches_to_employee_checkin env0 store_one), 1, 0)"
    using run_one by (rule outcome_Inr)
  from second_run_creates_nothing[OF 1] 1 show ?thesis by simp
qed

text \<open>
  The claim as the specification states it fails on one unsynced punch of an active
  employee: the first run creates one Checkin Event, and the second run reports
  alreadySynced = 0, not 1.
\<close>

theorem second_run_already_synced_counterexample:
  "outcome (sync_punches_to_employee_checkin env0 store_one) = Inr (1, 0) \<and>
   outcome (sync_punches_to_employee_checkin env0
       (result_store (sync_punches_to_employee_checkin env0 store_one))) = Inr (0, 0) \<and>
   snd (projr (outcome (sync_punches_to_employee_checkin env0
       (result_store (sync_punches_to_employee_checkin env0 store_one)))))
     \<noteq> fst (projr (outcome (sync_punches_to_employee_checkin env0 store_one)))"
proof -
  have 1: "sync_punches_to_employee_checkin env0 store_one
     = Inr (result_store (sync_punches_to_employee_checkin env0 store_one), 1, 0)"
    using run_one by (rule outcome_Inr)
  have "unsynced_punches (result_store (sync_punches_to_employee_checkin env0 store_one)) = []"
    by (simp add: ex_defs red_defs result_store_def Let_def)
  then have 2: "outcome (sync_punches_to_employee_checkin env0
       (result_store (sync_punches_to_employee_checkin env0 store_one))) = Inr (0, 0)"
    by (simp add: sync_punches_to_employee_checkin_def[of env0 "result_store _"] outcome_def)
  show ?thesis using run_one 2 by simp
qed

lemma for_groups_active_only:
  "for_groups en (s, c, a) gs =
   for_groups en (s, c, a)
     (filter (\<lambda>g. fst (fst g) \<noteq> [] \<and> \<not> inactive_or_unknown s (fst (fst g))) gs)"
proof (induction gs arbitrary: s c a)
  case Nil
  show ?case by simp
next
  case (Cons g gs)
  obtain emp_no d grp where g: "g = ((emp_no, d), grp)" by (cases g) auto
  show ?case
  proof (cases "emp_no = [] \<or> inactive_or_unknown s emp_no")
    case True
    then have "process_group en (s, c, a) g = Inr (s, c, a)"
      unfolding g by (rule process_group_skip)
    then show ?thesis using True Cons.IH[of s c a] by (auto simp: g)
  next
    case False
    show ?thesis
    proof (cases "process_group en (s, c, a) g")
      case (Inl b)
      then show ?thesis using False by (simp add: g)
    next
      case (Inr b)
      obtain s1 c1 a1 where b: "b = (s1, c1, a1)" by (cases b)
      have "marked (punch_name ` set grp) s s1"
        using process_group_marked[of grp s en c a emp_no d] Inr b by (simp add: g)
      then have "employees s1 = employees s" by (rule marked_employees)
      then have eq: "\<And>k. inactive_or_unknown s1 k = inactive_or_unknown s k"
        by (rule inactive_or_unknown_cong)
      show ?thesis using False Inr b Cons.IH[of s1 c1 a1] by (simp add: g eq)
    qed
  qed
qed

lemma for_groups_without_skipped:
  assumes "emp_no = [] \<or> inactive_or_unknown s emp_no"
  shows "for_groups en (s, c, a) gs =
     for_groups en (s, c, a) (filter (\<lambda>g. g \<noteq> ((emp_no, d), grp)) gs)"
proof -
  let ?act = "\<lambda>g. fst (fst g) \<noteq> [] \<and> \<not> inactive_or_unknown s (fst (fst g))"
  have "filter ?act (filter (\<lambda>g. g \<noteq> ((emp_no, d), grp)) gs) = filter ?act gs"
    using assms by (induction gs) auto
  then show ?thesis
    using for_groups_active_only[of en s c a gs]
      for_groups_active_only[of en s c a "filter (\<lambda>g. g \<noteq> ((emp_no, d), grp)) gs"]
    by simp
qed

lemma marked_untouched:
  assumes "marked N s s'" and "p' \<in> set (punches s')" and "p_name p' \<notin> N"
  shows "p' \<in> set (punches s)"
proof -
  have l: "list_all2 (touched N) (punches s) (punches s')"
    using assms(1) by (simp add: marked_def)
  from assms(2) obtain i where i: "i < length (punches s')" "punches s' ! i = p'"
    by (auto simp: in_set_conv_nth)
  with l have len: "i < length (punches s)" by (simp add: list_all2_lengthD)
  from l i len have "touched N (punches s ! i) p'"
    by (auto simp: list_all2_conv_all_nth)
  then have "p' = punches s ! i" using assms(3) by (auto simp: touched_def)
  then show ?thesis using len by simp
qed

lemma same_punch_same_row:
  assumes nd: "names_distinct s"
    and r: "r \<in> set (unsynced_punches s)" and r': "r' \<in> set (unsynced_punches s)"
    and n: "punch_name r = punch_name r'"
  shows "r = r'"
proof -
  from r obtain p l where p: "p \<in> set (punches s)" and l: "l \<in> set (logs s)" "l_name l = p_parent p"
    and re: "r = join_row p l"
    unfolding unsynced_punches_iff by blast
  from r' obtain p' l' where p': "p' \<in> set (punches s)" and l': "l' \<in> set (logs s)" "l_name l' = p_parent p'"
    and re': "r' = join_row p' l'"
    unfolding unsynced_punches_iff by blast
  have "p_name p = p_name p'" using n re re' by (simp add: join_row_def)
  then have pp: "p = p'"
    using nd p p' by (auto simp: names_distinct_def distinct_map inj_on_def)
  then have "l_name l = l_name l'" using l(2) l'(2) by simp
  then have "l = l'"
    using nd l(1) l'(1) by (auto simp: names_distinct_def distinct_map inj_on_def)
  then show ?thesis using pp re re' by simp
qed

subsection \<open>Groups of unknown or inactive employees\<close>

lemma skipped_group_names_apart:
  assumes nd: "names_distinct s"
    and g: "((emp_no, d), grp) \<in> set (group_punches (unsynced_punches s))"
    and r: "r \<in> set grp"
  shows "punch_name r \<notin>
    group_names (filter (\<lambda>g. g \<noteq> ((emp_no, d), grp)) (group_punches (unsynced_punches s)))"
proof
  let ?gs = "group_punches (unsynced_punches s)"
  assume "punch_name r \<in> group_names (filter (\<lambda>g. g \<noteq> ((emp_no, d), grp)) ?gs)"
  then obtain g' r' where g': "g' \<in> set ?gs" "g' \<noteq> ((emp_no, d), grp)"
    and r'0: "r' \<in> set (snd g')" "punch_name r' = punch_name r"
    unfolding group_names_def by fastforce
  obtain k vs where kvs: "g' = (k, vs)" by (cases g')
  have kv: "(k, vs) \<in> set ?gs" "(k, vs) \<noteq> ((emp_no, d), grp)"
    using g' kvs by simp_all
  have r': "r' \<in> set vs" "punch_name r' = punch_name r"
    using r'0 kvs by simp_all
  have rr: "r \<in> set (unsynced_punches s)" "row_key r = (emp_no, d)"
    using group_punches_from[OF g r] by simp_all
  have rr': "r' \<in> set (unsynced_punches s)" "row_key r' = k"
    using group_punches_from[OF kv(1) r'(1)] by simp_all
  have "r = r'" using same_punch_same_row[OF nd rr(1) rr'(1)] r'(2) by simp
  then have "k = (emp_no, d)" using rr(2) rr'(2) by simp
  moreover have "distinct (map fst ?gs)" by (rule group_punches_distinct)
  ultimately have "vs = grp"
    using kv(1) g by (metis eq_key_imp_eq_value)
  then show False using kv(2) \<open>k = (emp_no, d)\<close> by simp
qed

text \<open>
  C7. A group whose employee_no resolves to no Employee, or to one that is not Active, is
  skipped without an error: the loop body returns the state as it got it, the run is the
  run without that group, and in the store the run leaves behind (returned or raised)
  every punch of the group is still unsynced. Document names are primary keys.
\<close>

lemma skipped_group_stays_unsynced:
  assumes nd: "names_distinct s"
    and g: "((emp_no, d), grp) \<in> set (group_punches (unsynced_punches s))"
    and skip: "inactive_or_unknown s emp_no"
  shows "sync_punches_to_employee_checkin en s =
         for_groups en (s, 0, 0)
           (filter (\<lambda>g. g \<noteq> ((emp_no, d), grp)) (group_punches (unsynced_punches s)))"
    and "\<forall>r\<in>set grp. \<forall>p\<in>set (punches (result_store (sync_punches_to_employee_checkin en s))).
           p_name p = punch_name r \<longrightarrow> \<not> p_synced_to_employee_checkin p"
proof -
  let ?gs = "group_punches (unsynced_punches s)"
  let ?rest = "filter (\<lambda>g. g \<noteq> ((emp_no, d), grp)) ?gs"
  have ne: "unsynced_punches s \<noteq> []"
    using g by (auto simp: group_punches_def)
  then have "sync_punches_to_employee_checkin en s = for_groups en (s, 0, 0) ?gs"
    by (simp add: sync_punches_to_employee_checkin_def Let_def)
  also have "\<dots> = for_groups en (s, 0, 0) ?rest"
    using skip by (intro for_groups_without_skipped) simp
  finally show run: "sync_punches_to_employee_checkin en s = for_groups en (s, 0, 0) ?rest" .
  have m: "marked (group_names ?rest) s (result_store (sync_punches_to_employee_checkin en s))"
    unfolding run by (rule for_groups_marked)
  show "\<forall>r\<in>set grp. \<forall>p\<in>set (punches (result_store (sync_punches_to_employee_checkin en s))).
           p_name p = punch_name r \<longrightarrow> \<not> p_synced_to_employee_checkin p"
  proof (intro ballI impI)
    fix r p
    assume r: "r \<in> set grp"
      and p: "p \<in> set (punches (result_store (sync_punches_to_employee_checkin en s)))"
      and n: "p_name p = punch_name r"
    have "p_name p \<notin> group_names ?rest"
      using skipped_group_names_apart[OF nd g r] n by simp
    then have ps: "p \<in> set (punches s)" using marked_untouched[OF m p] by simp
    have "r \<in> set (unsynced_punches s)" using group_punches_from[OF g r] by simp
    then obtain p0 l0 where p0: "p0 \<in> set (punches s)" "\<not> p_synced_to_employee_checkin p0"
      and r0: "r = join_row p0 l0"
      unfolding unsynced_punches_iff by blast
    have "p_name p0 = p_name p" using r0 n by (simp add: join_row_def)
    then have "p0 = p"
      using nd p0(1) ps by (auto simp: names_distinct_def distinct_map inj_on_def)
    then show "\<not> p_synced_to_employee_checkin p" using p0(2) by simp
  qed
qed

text \<open>
  C7. A group whose employee_no resolves to no Employee, or to one that is not Active, is
  skipped without an error: the loop body returns the state as it got it, the run is the
  run without that group, and in the store the run leaves behind (returned or raised)
  every punch of the group is still unsynced. Document names are primary keys.
\<close>

theorem unresolved_group_is_skipped:
  assumes nd: "names_distinct s"
    and g: "((emp_no, d), grp) \<in> set (group_punches (unsynced_punches s))"
    and skip: "inactive_or_unknown s emp_no"
  shows "process_group en (s, c, a) ((emp_no, d), grp) = Inr (s, c, a) \<and>
     sync_punches_to_employee_checkin en s =
         for_groups en (s, 0, 0)
           (filter (\<lambda>g. g \<noteq> ((emp_no, d), grp)) (group_punches (unsynced_punches s))) \<and>
     (\<forall>r\<in>set grp. \<forall>p\<in>set (punches (result_store (sync_punches_to_employee_checkin en s))).
           p_name p = punch_name r \<longrightarrow> \<not> p_synced_to_employee_checkin p)"
proof (intro conjI)
  show "process_group en (s, c, a) ((emp_no, d), grp) = Inr (s, c, a)"
    using skip by (intro process_group_skip) simp
  show "sync_punches_to_employee_checkin en s =
         for_groups en (s, 0, 0)
           (filter (\<lambda>g. g \<noteq> ((emp_no, d), grp)) (group_punches (unsynced_punches s)))"
    using nd g skip by (rule skipped_group_stays_unsynced(1))
  show "\<forall>r\<in>set grp. \<forall>p\<in>set (punches (result_store (sync_punches_to_employee_checkin en s))).
           p_name p = punch_name r \<longrightarrow> \<not> p_synced_to_employee_checkin p"
    using nd g skip by (rule skipped_group_stays_unsynced(2))
qed

theorem unresolved_group_is_skipped_witness:
  "names_distinct store_two \<and>
   ((''102'', (2024, 1, 15)), [join_row (a_punch 7 6 9 0) (a_log 6 ''102'')])
      \<in> set (group_punches (unsynced_punches store_two)) \<and>
   inactive_or_unknown store_two ''102'' \<and>
   process_group env0 (store_two, 0, 0)
      ((''102'', (2024, 1, 15)), [join_row (a_punch 7 6 9 0) (a_log 6 ''102'')])
     = Inr (store_two, 0, 0) \<and>
   outcome (sync_punches_to_employee_checkin env0 store_two) = Inr (2, 0) \<and>
   p_name (punches (result_store (sync_punches_to_employee_checkin env0 store_two)) ! 2) = 7 \<and>
   \<not> p_synced_to_employee_checkin
       (punches (result_store (sync_punches_to_employee_checkin env0 store_two)) ! 2)"
proof -
  let ?g = "((''102'', (2024, 1, 15)), [join_row (a_punch 7 6 9 0) (a_log 6 ''102'')])"
  let ?s' = "result_store (sync_punches_to_employee_checkin env0 store_two)"
  have h1: "names_distinct store_two"
    by (simp add: names_distinct_def ex_defs)
  have h2: "?g \<in> set (group_punches (unsynced_punches store_two))"
    by (simp add: ex_defs unsynced_punches_def join_row_def group_punches_def)
  have h3: "inactive_or_unknown store_two ''102''"
    by (simp add: inactive_or_unknown_def ex_defs)
  note th = unresolved_group_is_skipped[OF h1 h2 h3, of env0 0 0]
  have run: "outcome (sync_punches_to_employee_checkin env0 store_two) = Inr (2, 0)"
    by (simp add: ex_defs red_defs outcome_def Let_def)
  have fl: "punch_flags ?s' = [(2, True), (3, True), (7, False)]"
    by (simp add: ex_defs red_defs punch_flags_def result_store_def Let_def)
  have len: "length (punches ?s') = 3"
    using arg_cong[OF fl, of length] by (simp add: punch_flags_def)
  have nm: "p_name (punches ?s' ! 2) = 7"
    using arg_cong[OF fl, of "\<lambda>xs. fst (xs ! 2)"] len by (simp add: punch_flags_def)
  have mem: "punches ?s' ! 2 \<in> set (punches ?s')"
    using len by simp
  have "\<not> p_synced_to_employee_checkin (punches ?s' ! 2)"
    using th mem nm by (simp add: join_row_def a_punch_def)
  then show ?thesis using h1 h2 h3 th run nm by blast
qed

subsection \<open>A refused insert\<close>



lemma process_group_active_eq:
  assumes "emp_no \<noteq> []"
    and "find (\<lambda>e. e_attendance_device_id e = emp_no) (employees s) = Some e"
    and "e_status e = ''Active''" and "sort_by_time grp = Inr (x # xs)"
  shows "process_group en (s, c, a) ((emp_no, d), grp) =
     (case create_checkin_for_punch en (e_name e) d (s, c, a) x IN of
        Inl err \<Rightarrow> Inl err
      | Inr st1 \<Rightarrow>
          (case (if punch_name (last (x # xs)) \<noteq> punch_name x
                 then create_checkin_for_punch en (e_name e) d st1 (last (x # xs)) OUT
                 else Inr st1) of
             Inl err \<Rightarrow> Inl err
           | Inr (s2, c2, a2) \<Rightarrow>
               Inr (mark_middle s2
                      (filter (\<lambda>p. punch_name p \<noteq> punch_name x
                                 \<and> punch_name p \<noteq> punch_name (last (x # xs))) (x # xs)),
                    c2, a2)))"
  using assms by (simp add: process_group_def Let_def del: last.simps filter.simps)




subsection \<open>One Checkin Event per employee and time\<close>

lemma checkin_keys_set_synced [simp]:
  "checkin_keys_distinct (set_synced n link s) = checkin_keys_distinct s"
  by (simp add: checkin_keys_distinct_def)

lemma checkin_keys_mark_middle [simp]:
  "checkin_keys_distinct (mark_middle s ms) = checkin_keys_distinct s"
  by (simp add: checkin_keys_distinct_def)

lemma already_there:
  assumes "punch_time x = Some t" and "checkin_exists s emp (d, t)"
  shows "create_checkin_for_punch en emp d (s, c, a) x lt
     = Inr (set_synced (punch_name x) None s, c, a + 1)"
  using assms by (simp add: create_checkin_for_punch_def get_datetime_def)

lemma create_checkin_keys:
  assumes "checkin_keys_distinct s"
  shows "checkin_keys_distinct (result_store (create_checkin_for_punch en emp d (s, c, a) x lt))"
proof (cases "punch_time x")
  case None
  then show ?thesis using assms
    by (simp add: create_checkin_for_punch_def get_datetime_def)
next
  case (Some t)
  show ?thesis
  proof (cases "checkin_exists s emp (d, t)")
    case True
    then show ?thesis using assms Some by (simp add: already_there)
  next
    case False
    then have nk: "(emp, (d, t)) \<notin> set (map (\<lambda>c. (c_employee c, c_time c)) (checkins s))"
      by (auto simp: checkin_exists_def list_ex_iff)
    show ?thesis
    proof (cases "insert_ok en s (new_checkin en s emp (d, t) x lt)")
      case True
      have "checkin_keys_distinct
          (s\<lparr>checkins := checkins s @ [new_checkin en s emp (d, t) x lt],
             next_name := Suc (next_name s)\<rparr>)"
        using assms nk by (simp add: checkin_keys_distinct_def new_checkin_def)
      then show ?thesis using Some False True
        by (simp add: create_checkin_for_punch_def get_datetime_def Let_def)
    next
      case refuse: False
      then show ?thesis using assms Some False
        by (simp add: create_checkin_for_punch_def get_datetime_def Let_def)
    qed
  qed
qed

lemma process_group_keys:
  assumes "checkin_keys_distinct s"
  shows "checkin_keys_distinct (result_store (process_group en (s, c, a) g))"
proof -
  obtain emp_no d grp where g: "g = ((emp_no, d), grp)" by (cases g) auto
  show ?thesis
  proof (cases "emp_no = [] \<or> inactive_or_unknown s emp_no")
    case True
    then show ?thesis using assms by (simp add: g process_group_skip)
  next
    case False
    then obtain e where e: "find (\<lambda>e. e_attendance_device_id e = emp_no) (employees s) = Some e"
      and act: "e_status e = ''Active''" and ne: "emp_no \<noteq> []"
      by (auto simp: inactive_or_unknown_def split: option.splits)
    show ?thesis
    proof (cases "sort_by_time grp")
      case (Inl err)
      then show ?thesis using assms e act ne by (simp add: g process_group_def)
    next
      case (Inr ys)
      show ?thesis
      proof (cases ys)
        case Nil
        then show ?thesis using assms e act ne Inr by (simp add: g process_group_def)
      next
        case (Cons x xs)
        note eq = process_group_active_eq[OF ne e act Inr[unfolded Cons], of en c a d]
        let ?r1 = "create_checkin_for_punch en (e_name e) d (s, c, a) x IN"
        have k1: "checkin_keys_distinct (result_store ?r1)"
          using assms by (rule create_checkin_keys)
        show ?thesis
        proof (cases ?r1)
          case (Inl b)
          then show ?thesis using k1 eq by (simp add: g)
        next
          case r1: (Inr st1)
          obtain s1 c1 a1 where st1: "st1 = (s1, c1, a1)" by (cases st1)
          have ks1: "checkin_keys_distinct s1" using k1 r1 st1 by simp
          let ?r2 = "if punch_name (last (x # xs)) \<noteq> punch_name x
                 then create_checkin_for_punch en (e_name e) d (s1, c1, a1) (last (x # xs)) OUT
                 else Inr (s1, c1, a1)"
          have k2: "checkin_keys_distinct (result_store ?r2)"
            using ks1 create_checkin_keys[OF ks1, of en "e_name e" d c1 a1 "last (x # xs)" OUT]
            by (simp del: last.simps)
          show ?thesis
          proof (cases ?r2)
            case (Inl b)
            then show ?thesis using k2 eq r1 st1 by (simp add: g del: last.simps filter.simps)
          next
            case r2: (Inr st2)
            obtain s2 c2 a2 where st2: "st2 = (s2, c2, a2)" by (cases st2)
            have "checkin_keys_distinct s2" using k2 r2 st2 by (simp del: last.simps)
            then show ?thesis using eq r1 st1 r2 st2
              by (simp add: g del: last.simps filter.simps)
          qed
        qed
      qed
    qed
  qed
qed

lemma for_groups_keys:
  "checkin_keys_distinct s \<Longrightarrow>
   checkin_keys_distinct (result_store (for_groups en (s, c, a) gs))"
proof (induction gs arbitrary: s c a)
  case Nil
  then show ?case by simp
next
  case (Cons g gs)
  have k: "checkin_keys_distinct (result_store (process_group en (s, c, a) g))"
    using Cons.prems by (rule process_group_keys)
  show ?case
  proof (cases "process_group en (s, c, a) g")
    case (Inl b)
    then show ?thesis using k by simp
  next
    case (Inr st1)
    obtain s1 c1 a1 where st1: "st1 = (s1, c1, a1)" by (cases st1)
    then have "checkin_keys_distinct s1" using k Inr by simp
    from Cons.IH[OF this] show ?thesis using Inr st1 by simp
  qed
qed

text \<open>
  C6. Before it creates a Checkin Event, the reducer looks for one at the same (employee,
  timestamp). If there is one, it creates nothing, marks the punch synced and counts it
  as already synced. So a run, returned or raised, never leaves two Checkin Events with
  the same (employee, time) where there were none.
\<close>

theorem one_checkin_per_employee_and_time:
  "(punch_time x = Some t \<and> checkin_exists s emp (d, t) \<longrightarrow>
      create_checkin_for_punch en emp d (s, c, a) x lt
        = Inr (set_synced (punch_name x) None s, c, a + 1)
      \<and> checkins (set_synced (punch_name x) None s) = checkins s
      \<and> all_synced (punch_name x) (set_synced (punch_name x) None s)) \<and>
   (checkin_keys_distinct s \<longrightarrow>
      checkin_keys_distinct (result_store (sync_punches_to_employee_checkin en s)))"
proof (intro conjI impI)
  assume h: "punch_time x = Some t \<and> checkin_exists s emp (d, t)"
  then show "create_checkin_for_punch en emp d (s, c, a) x lt
        = Inr (set_synced (punch_name x) None s, c, a + 1)"
    by (simp add: already_there)
  show "checkins (set_synced (punch_name x) None s) = checkins s" by simp
  show "all_synced (punch_name x) (set_synced (punch_name x) None s)"
    by (rule all_synced_set_synced)
next
  assume k: "checkin_keys_distinct s"
  show "checkin_keys_distinct (result_store (sync_punches_to_employee_checkin en s))"
  proof (cases "unsynced_punches s = []")
    case True
    then show ?thesis using k by (simp add: sync_punches_to_employee_checkin_def)
  next
    case False
    then show ?thesis using for_groups_keys[OF k]
      by (simp add: sync_punches_to_employee_checkin_def Let_def)
  qed
qed


theorem one_checkin_per_employee_and_time_witness:
  "punch_time (a_row 2 1 8 0 ''101'') = Some 28800 \<and>
   checkin_exists store_existing ''HR-EMP-00001'' ((2024, 1, 15), 28800) \<and>
   create_checkin_for_punch env0 ''HR-EMP-00001'' (2024, 1, 15) (store_existing, 0, 0)
       (a_row 2 1 8 0 ''101'') IN
     = Inr (set_synced 2 None store_existing, 0, 1) \<and>
   checkins (set_synced 2 None store_existing) = checkins store_existing \<and>
   checkin_keys_distinct store_existing \<and>
   checkin_keys_distinct (result_store (sync_punches_to_employee_checkin env0 store_existing)) \<and>
   outcome (sync_punches_to_employee_checkin env0 store_existing) = Inr (1, 1) \<and>
   checkin_list (result_store (sync_punches_to_employee_checkin env0 store_existing))
     = [(''HR-EMP-00001'', ((2024, 1, 15), 28800), IN),
        (''HR-EMP-00001'', ((2024, 1, 15), 63000), OUT)]"
proof -
  have h1: "punch_time (a_row 2 1 8 0 ''101'') = Some 28800"
    by (simp add: a_row_def join_row_def a_punch_def)
  have h2: "checkin_exists store_existing ''HR-EMP-00001'' ((2024, 1, 15), 28800)"
    by (simp add: checkin_exists_def store_existing_def a_store_def)
  have h3: "checkin_keys_distinct store_existing"
    by (simp add: checkin_keys_distinct_def store_existing_def a_store_def)
  have n: "punch_name (a_row 2 1 8 0 ''101'') = 2"
    by (simp add: a_row_def join_row_def a_punch_def)
  note th = one_checkin_per_employee_and_time[of "a_row 2 1 8 0 ''101''" 28800 store_existing
      "''HR-EMP-00001''" "(2024, 1, 15)" env0 0 0 IN]
  have c1: "create_checkin_for_punch env0 ''HR-EMP-00001'' (2024, 1, 15) (store_existing, 0, 0)
       (a_row 2 1 8 0 ''101'') IN
     = Inr (set_synced 2 None store_existing, 0, 1)"
    using th h1 h2 n by simp
  have c2: "checkins (set_synced 2 None store_existing) = checkins store_existing"
    using th h1 h2 n by simp
  have c3: "checkin_keys_distinct (result_store (sync_punches_to_employee_checkin env0 store_existing))"
    using th h3 by blast
  have o: "outcome (sync_punches_to_employee_checkin env0 store_existing) = Inr (1, 1)"
    by (simp add: ex_defs red_defs outcome_def Let_def)
  have cl: "checkin_list (result_store (sync_punches_to_employee_checkin env0 store_existing))
     = [(''HR-EMP-00001'', ((2024, 1, 15), 28800), IN),
        (''HR-EMP-00001'', ((2024, 1, 15), 63000), OUT)]"
    by (simp add: ex_defs red_defs checkin_list_def result_store_def Let_def)
  show ?thesis using h1 h2 c1 c2 h3 c3 o cl by blast
qed

section \<open>Properties of the device ingest\<close>

lemma process_event_no_key:
  "event_key en ev = None \<Longrightarrow>
   process_event en label ip (s, c, k) ev = Inr (s, c, k)
   \<or> process_event en label ip (s, c, k) ev = Inl (ValueError, s)"
  by (auto simp: event_key_def process_event_def Let_def split: option.splits if_splits)

lemma process_event_keyed:
  assumes "event_key en ev = Some (e, d, t)"
  shows "process_event en label ip (s, c, k) ev =
     (if \<not> existing_punch s (get_all_log s e d) t
      then
        (if save_ok en s (log_doc en ip s (get_all_log s e d) e d)
              (new_punch en ip s (get_all_log s e d) t)
         then Inr (save_doc s (get_all_log s e d) (log_doc en ip s (get_all_log s e d) e d)
                     (new_punch en ip s (get_all_log s e d) t), c + 1, k)
         else Inr (s\<lparr>error_log := error_log s
                       @ [''['' @ label @ ''] Insert failed for employee '' @ e]\<rparr>, c, k))
      else Inr (s, c, k + 1))"
  using assms
  by (auto simp: event_key_def process_event_def Let_def split: option.splits if_splits)

lemma punches_save_doc: "punches (save_doc s doc l p) = punches s @ [p]"
  by (cases doc) (simp_all add: save_doc_def)

lemma process_event_count:
  assumes "process_event en label ip (s, c, k) ev = Inr (s', c', k')"
  shows "length (punches s') + c = length (punches s) + c'"
proof (cases "event_key en ev")
  case None
  from process_event_no_key[OF None, of label ip s c k] assms show ?thesis by auto
next
  case (Some key)
  obtain e d t where key: "key = (e, d, t)" by (cases key)
  from assms show ?thesis
    unfolding process_event_keyed[OF Some[unfolded key]]
    by (auto simp: punches_save_doc split: if_splits)
qed

lemma for_events_count:
  "for_events en label ip (s, c, k) evs = Inr (s', c', k') \<Longrightarrow>
   length (punches s') + c = length (punches s) + c'"
proof (induction evs arbitrary: s c k)
  case Nil
  then show ?case by simp
next
  case (Cons ev evs)
  from Cons.prems obtain s1 c1 k1 where
    1: "process_event en label ip (s, c, k) ev = Inr (s1, c1, k1)" and
    2: "for_events en label ip (s1, c1, k1) evs = Inr (s', c', k')"
    by (auto split: sum.splits)
  from process_event_count[OF 1] Cons.IH[OF 2] show ?case by simp
qed

lemma fetch_pages_counted:
  assumes "fetch_pages en label ip dev s c k pos = Some res"
  shows "counted s c res"
proof (rule fetch_pages.raw_induct[where P = "\<lambda>en label ip dev s c k pos res. counted s c res",
      OF _ assms], goal_cases)
  case (1 fp en label ip dev s c k pos res)
  show ?case
  proof (cases res)
    case (Inl b)
    then show ?thesis by (simp add: counted_def)
  next
    case (Inr b)
    obtain s' c' k' where b: "b = (s', c', k')" by (cases b)
    note body = 1(2)[unfolded Inr b]
    from body obtain r data where
      r: "dev pos batch_size = Some r" "status_code r = 200" "json r = Some data"
      by (auto split: option.splits if_splits)
    let ?events = "case InfoList data of None \<Rightarrow> [] | Some es \<Rightarrow> es"
    show ?thesis
    proof (cases "?events = []")
      case True
      then show ?thesis using body r by (simp add: Let_def counted_def Inr b)
    next
      case False
      with body r obtain s1 c1 k1 where
        fe: "for_events en label ip (s, c, k) ?events = Inr (s1, c1, k1)"
        by (auto simp: Let_def split: sum.splits)
      note cnt = for_events_count[OF fe]
      show ?thesis
      proof (cases "length ?events < batch_size")
        case True
        then show ?thesis using body r False fe cnt by (simp add: Let_def counted_def Inr b)
      next
        case ge: False
        then have "fp en label ip dev s1 c1 k1 (pos + length ?events) = Some (Inr (s', c', k'))"
          using body r False fe by (simp add: Let_def)
        from 1(1)[OF this] cnt show ?thesis by (simp add: counted_def Inr b)
      qed
    qed
  qed
qed


lemmas ingest_defs = sync_for_single_device_def process_event_def get_all_log_def
  existing_punch_def log_doc_def new_punch_def punch_row_def save_doc_def
  strptime_iso_def digit_val_def days_in_month_def batch_size_def

subsection \<open>The volume ceiling\<close>

text \<open>
  C3. When the first answer of a device reports more than 1500 matches, the sync of that
  device raises, and the store is as it was: nothing has been written and no page has
  been asked for.
\<close>

theorem volume_ceiling:
  assumes "dev 0 1 = Some r" and "status_code r = 200" and "json r = Some data"
    and "totalMatches data = Some n" and "1500 < n"
  shows "sync_for_single_device en label ip dev s = Some (Inl (too_many label n, s))"
  using assms by (simp add: sync_for_single_device_def)

theorem volume_ceiling_witness:
  "device_reporting 1501 0 1
     = Some (a_response 1501 [an_event ''101'' ''2024-01-15T08:00:00+05:00'']) \<and>
   totalMatches (an_acs_event 1501 [an_event ''101'' ''2024-01-15T08:00:00+05:00'']) = Some 1501 \<and>
   (1500 :: int) < 1501 \<and>
   sync_for_single_device env0 ''Main Device'' ''192.168.1.64'' (device_reporting 1501) store_empty
     = Some (Inl (ValidationError
          ''[Main Device] Too many records to process (1501). Reduce date range.'', store_empty))"
proof -
  let ?evs = "[an_event ''101'' ''2024-01-15T08:00:00+05:00'']"
  have r1: "device_reporting 1501 0 1 = Some (a_response 1501 ?evs)"
    by (simp add: device_reporting_def ok_response_def)
  have r2: "status_code (a_response 1501 ?evs) = 200"
    by (simp add: a_response_def)
  have r3: "json (a_response 1501 ?evs) = Some (an_acs_event 1501 ?evs)"
    by (simp add: a_response_def)
  have r4: "totalMatches (an_acs_event 1501 ?evs) = Some 1501"
    by (simp add: an_acs_event_def)
  have r5: "(1500 :: int) < 1501" by simp
  note th = volume_ceiling[where dev = "device_reporting 1501", OF r1 r2 r3 r4 r5,
      of env0 "''Main Device''" "''192.168.1.64''" store_empty]
  have "too_many ''Main Device'' 1501 = ValidationError
          ''[Main Device] Too many records to process (1501). Reduce date range.''"
    by (simp add: too_many_def str_int_def str_nat.simps)
  then show ?thesis using th r1 r4 by simp
qed

subsection \<open>A refused save\<close>

text \<open>
  C9. An event whose save is refused leaves both counters and the punches as they were
  (an Error Log entry is written); and when the sync of a device returns, its inserted
  count is the number of punches that the store has gained.
\<close>

theorem refused_save_is_not_counted:
  "(event_key en ev = Some (e, d, t) \<and> \<not> has_punch s (e, d, t) \<and>
      \<not> save_ok en s (log_doc en ip s (get_all_log s e d) e d)
            (new_punch en ip s (get_all_log s e d) t) \<longrightarrow>
      process_event en label ip (s, inserted, skipped) ev
        = Inr (s\<lparr>error_log := error_log s
                   @ [''['' @ label @ ''] Insert failed for employee '' @ e]\<rparr>,
               inserted, skipped)) \<and>
   (sync_for_single_device en label ip dev s = Some (Inr (s', inserted', skipped')) \<longrightarrow>
      length (punches s') = length (punches s) + inserted')"
proof (intro conjI impI)
  assume "event_key en ev = Some (e, d, t) \<and> \<not> has_punch s (e, d, t) \<and>
      \<not> save_ok en s (log_doc en ip s (get_all_log s e d) e d)
            (new_punch en ip s (get_all_log s e d) t)"
  then show "process_event en label ip (s, inserted, skipped) ev
        = Inr (s\<lparr>error_log := error_log s
                   @ [''['' @ label @ ''] Insert failed for employee '' @ e]\<rparr>,
               inserted, skipped)"
    by (simp add: process_event_keyed has_punch_def)
next
  assume run: "sync_for_single_device en label ip dev s = Some (Inr (s', inserted', skipped'))"
  show "length (punches s') = length (punches s) + inserted'"
  proof (cases "fetch_pages en label ip dev s 0 0 0 = Some (Inr (s', inserted', skipped'))")
    case True
    from fetch_pages_counted[OF True] show ?thesis by (simp add: counted_def)
  next
    case False
    with run have "s' = s \<and> inserted' = 0"
      by (auto simp: sync_for_single_device_def Let_def split: option.splits if_splits)
    then show ?thesis by simp
  qed
qed


lemma device_outcome_Inr:
  "map_option outcome r = Some (Inr (c, k)) \<Longrightarrow> r = Some (Inr (result_store (the r), c, k))"
  by (cases r) (auto dest: outcome_Inr)

theorem refused_save_is_not_counted_witness:
  "event_key env_save_picky (an_event ''102'' ''2024-01-15T08:01:00+05:00'')
     = Some (''102'', (2024, 1, 15), 28860) \<and>
   \<not> has_punch store_empty (''102'', (2024, 1, 15), 28860) \<and>
   process_event env_save_picky ''Main Device'' ''192.168.1.64'' (store_empty, 0, 0)
       (an_event ''102'' ''2024-01-15T08:01:00+05:00'')
     = Inr (store_empty\<lparr>error_log := [''[Main Device] Insert failed for employee 102'']\<rparr>, 0, 0) \<and>
   map_option outcome
     (sync_for_single_device env_save_picky ''Main Device'' ''192.168.1.64''
        (paged_device three_events) store_empty) = Some (Inr (1, 1)) \<and>
   length (punches (result_store (the
     (sync_for_single_device env_save_picky ''Main Device'' ''192.168.1.64''
        (paged_device three_events) store_empty)))) = 1"
proof -
  let ?ev = "an_event ''102'' ''2024-01-15T08:01:00+05:00''"
  let ?run = "sync_for_single_device env_save_picky ''Main Device'' ''192.168.1.64''
        (paged_device three_events) store_empty"
  have k: "event_key env_save_picky ?ev = Some (''102'', (2024, 1, 15), 28860)"
    by (simp add: event_key_def ex_defs ingest_defs)
  have h: "\<not> has_punch store_empty (''102'', (2024, 1, 15), 28860)"
    by (simp add: has_punch_def ex_defs ingest_defs)
  have r: "\<not> save_ok env_save_picky store_empty
      (log_doc env_save_picky ''192.168.1.64'' store_empty
         (get_all_log store_empty ''102'' (2024, 1, 15)) ''102'' (2024, 1, 15))
      (new_punch env_save_picky ''192.168.1.64'' store_empty
         (get_all_log store_empty ''102'' (2024, 1, 15)) 28860)"
    by (simp add: ex_defs ingest_defs)
  note th = refused_save_is_not_counted[of env_save_picky ?ev "''102''" "(2024, 1, 15)" 28860
      store_empty "''192.168.1.64''" "''Main Device''" 0 0 "paged_device three_events"
      "result_store (the ?run)" 1 1]
  have pe: "process_event env_save_picky ''Main Device'' ''192.168.1.64'' (store_empty, 0, 0) ?ev
     = Inr (store_empty\<lparr>error_log := [''[Main Device] Insert failed for employee 102'']\<rparr>, 0, 0)"
    using th k h r by (simp add: store_empty_def a_store_def)
  have o: "map_option outcome ?run = Some (Inr (1, 1))"
    unfolding sync_for_single_device_def
    by (subst fetch_pages.simps) (simp add: ex_defs ingest_defs outcome_def Let_def)
  have "length (punches (result_store (the ?run))) = length (punches store_empty) + 1"
    using th device_outcome_Inr[OF o] by blast
  then have "length (punches (result_store (the ?run))) = 1"
    by (simp add: store_empty_def a_store_def)
  then show ?thesis using k h pe o by blast
qed

subsection \<open>What a saved event changes\<close>

lemma find_append_own:
  "find P (xs @ ys) = (case find P xs of None \<Rightarrow> find P ys | Some x \<Rightarrow> Some x)"
  by (induction xs) simp_all

lemma find_map_own:
  "(\<And>x. x \<in> set xs \<Longrightarrow> P (f x) = P x) \<Longrightarrow> find P (map f xs) = map_option f (find P xs)"
  by (induction xs) simp_all

lemma find_in_set: "find P xs = Some x \<Longrightarrow> x \<in> set xs \<and> P x"
  by (induction xs) (auto split: if_splits)

lemma has_punch_alt:
  "has_punch s (e, d, t) \<longleftrightarrow>
     (\<exists>l. get_all_log s e d = Some l \<and>
        (\<exists>p\<in>set (punches s). p_parent p = l_name l \<and> p_punch_time p = Some t))"
  by (auto simp: has_punch_def existing_punch_def list_ex_iff split: option.splits)

lemma save_new_log:
  fixes en :: env and ip :: string and t :: nat and s :: store and e :: string and d :: date
  assumes wf: "ingest_wf s" and none: "get_all_log s e d = None"
  defines "s' \<equiv> save_doc s None (log_doc en ip s None e d) (new_punch en ip s None t)"
  shows "ingest_wf s'" and "has_punch s' (e, d, t)"
    and "\<And>k'. k' \<noteq> (e, d, t) \<Longrightarrow> has_punch s' k' = has_punch s k'"
proof -
  let ?l = "log_doc en ip s None e d"
  let ?p = "new_punch en ip s None t"
  have l: "l_name ?l = next_name s" "l_employee_no ?l = e" "l_event_date ?l = d"
    by (simp_all add: log_doc_def Let_def)
  have p: "p_parent ?p = next_name s" "p_punch_time ?p = Some t"
    by (simp_all add: new_punch_def punch_row_def)
  have s': "logs s' = logs s @ [?l]" "punches s' = punches s @ [?p]"
    "next_name s' = Suc (Suc (next_name s))"
    by (simp_all add: s'_def save_doc_def)
  have names: "\<forall>l0\<in>set (logs s). l_name l0 < next_name s"
    and parents: "\<forall>p0\<in>set (punches s). p_parent p0 < next_name s"
    and dist: "distinct (map l_name (logs s))"
    using wf by (simp_all add: ingest_wf_def)
  show "ingest_wf s'"
    unfolding ingest_wf_def s'
    using names parents dist l p by (auto simp: less_Suc_eq)
  have g: "\<And>e' d'. get_all_log s' e' d' =
      (case get_all_log s e' d' of
         None \<Rightarrow> if (e', d') = (e, d) then Some ?l else None
       | Some x \<Rightarrow> Some x)"
    unfolding get_all_log_def s' find_append_own using l
    by (auto split: option.splits)
  show "has_punch s' (e, d, t)"
    unfolding has_punch_alt g none s' using l p by simp
  fix k' :: "string \<times> date \<times> nat"
  assume k': "k' \<noteq> (e, d, t)"
  obtain e' d' t' where kk: "k' = (e', d', t')" by (cases k')
  show "has_punch s' k' = has_punch s k'"
  proof (cases "get_all_log s e' d'")
    case None
    show ?thesis
    proof (cases "(e', d') = (e, d)")
      case True
      then have "t' \<noteq> t" using k' kk by auto
      then show ?thesis
        unfolding kk has_punch_alt g None s' using True l p parents by auto
    next
      case False
      then show ?thesis
        unfolding kk has_punch_alt g None by auto
    qed
  next
    case (Some l0)
    then have "l0 \<in> set (logs s)"
      unfolding get_all_log_def by (auto dest: find_in_set)
    then have "l_name l0 \<noteq> next_name s" using names by auto
    then show ?thesis
      unfolding kk has_punch_alt g Some s' using p by auto
  qed
qed


lemma save_existing_log:
  fixes en :: env and ip :: string and t :: nat and s :: store and e :: string and d :: date
  assumes wf: "ingest_wf s" and some: "get_all_log s e d = Some l0"
  defines "s' \<equiv> save_doc s (Some l0) (log_doc en ip s (Some l0) e d) (new_punch en ip s (Some l0) t)"
  shows "ingest_wf s'" and "has_punch s' (e, d, t)"
    and "\<And>k'. k' \<noteq> (e, d, t) \<Longrightarrow> has_punch s' k' = has_punch s k'"
proof -
  let ?l = "log_doc en ip s (Some l0) e d"
  let ?p = "new_punch en ip s (Some l0) t"
  let ?f = "\<lambda>l'. if l_name l' = l_name l0 then ?l else l'"
  have l0: "l0 \<in> set (logs s)" "l_employee_no l0 = e" "l_event_date l0 = d"
    using some unfolding get_all_log_def by (auto dest: find_in_set)
  have l: "l_name ?l = l_name l0" "l_employee_no ?l = l_employee_no l0"
    "l_event_date ?l = l_event_date l0"
    by (simp_all add: log_doc_def Let_def)
  have p: "p_parent ?p = l_name l0" "p_punch_time ?p = Some t"
    by (simp_all add: new_punch_def punch_row_def)
  have s': "logs s' = map ?f (logs s)" "punches s' = punches s @ [?p]"
    "next_name s' = Suc (next_name s)"
    by (simp_all add: s'_def save_doc_def)
  have names: "\<forall>l1\<in>set (logs s). l_name l1 < next_name s"
    and parents: "\<forall>p0\<in>set (punches s). p_parent p0 < next_name s"
    and dist: "distinct (map l_name (logs s))"
    using wf by (simp_all add: ingest_wf_def)
  have same: "\<And>l1. l1 \<in> set (logs s) \<Longrightarrow> l_name l1 = l_name l0 \<Longrightarrow> l1 = l0"
    using dist l0(1) by (auto simp: distinct_map inj_on_def)
  have f: "\<And>l1. l_name (?f l1) = l_name l1"
    "\<And>l1. l1 \<in> set (logs s) \<Longrightarrow> l_employee_no (?f l1) = l_employee_no l1"
    "\<And>l1. l1 \<in> set (logs s) \<Longrightarrow> l_event_date (?f l1) = l_event_date l1"
    using l same by auto
  have mapname: "map l_name (map ?f (logs s)) = map l_name (logs s)"
    unfolding map_map by (rule map_cong[OF refl]) (simp add: l(1))
  show "ingest_wf s'"
    unfolding ingest_wf_def s'
  proof (intro conjI)
    show "distinct (map l_name (map ?f (logs s)))" unfolding mapname by (rule dist)
    show "\<forall>la\<in>set (map ?f (logs s)). l_name la < Suc (next_name s)"
    proof
      fix la assume "la \<in> set (map ?f (logs s))"
      then obtain l1 where "l1 \<in> set (logs s)" "la = ?f l1" by auto
      then show "l_name la < Suc (next_name s)"
        using names f(1)[of l1] by (simp add: less_Suc_eq)
    qed
    show "\<forall>pa\<in>set (punches s @ [?p]). p_parent pa < Suc (next_name s)"
      using parents names l0(1) p by (auto simp: less_Suc_eq)
  qed
  have g: "\<And>e' d'. get_all_log s' e' d' = map_option ?f (get_all_log s e' d')"
    unfolding get_all_log_def s'
    by (rule find_map_own) (simp add: f(2,3))
  show "has_punch s' (e, d, t)"
    unfolding has_punch_alt g some s' using f(1)[of l0] p by simp
  fix k' :: "string \<times> date \<times> nat"
  assume k': "k' \<noteq> (e, d, t)"
  obtain e' d' t' where kk: "k' = (e', d', t')" by (cases k')
  show "has_punch s' k' = has_punch s k'"
  proof (cases "get_all_log s e' d'")
    case None
    then show ?thesis unfolding kk has_punch_alt g by simp
  next
    case (Some l1)
    then have l1: "l1 \<in> set (logs s)" "l_employee_no l1 = e'" "l_event_date l1 = d'"
      unfolding get_all_log_def by (auto dest: find_in_set)
    have nomatch: "\<not> (p_parent ?p = l_name l1 \<and> p_punch_time ?p = Some t')"
    proof
      assume m: "p_parent ?p = l_name l1 \<and> p_punch_time ?p = Some t'"
      then have "l_name l1 = l_name l0" "t' = t" using p by simp_all
      then have "l1 = l0"
        using dist l1(1) l0(1) by (auto simp: distinct_map inj_on_def)
      then have "(e', d', t') = (e, d, t)" using l1 l0 \<open>t' = t\<close> by simp
      then show False using k' kk by simp
    qed
    show ?thesis
      unfolding kk has_punch_alt g Some s' using nomatch f(1)[of l1] by auto
  qed
qed

lemma save_event_effect:
  fixes en :: env and ip :: string and t :: nat and s :: store and e :: string and d :: date
  assumes wf: "ingest_wf s"
  defines "s' \<equiv> save_doc s (get_all_log s e d) (log_doc en ip s (get_all_log s e d) e d)
      (new_punch en ip s (get_all_log s e d) t)"
  shows "ingest_wf s'" and "has_punch s' (e, d, t)"
    and "\<And>k'. k' \<noteq> (e, d, t) \<Longrightarrow> has_punch s' k' = has_punch s k'"
proof -
  have "ingest_wf s' \<and> has_punch s' (e, d, t)
      \<and> (\<forall>k'. k' \<noteq> (e, d, t) \<longrightarrow> has_punch s' k' = has_punch s k')"
  proof (cases "get_all_log s e d")
    case None
    show ?thesis
      unfolding s'_def None
      using save_new_log[where en = en and ip = ip and t = t, OF wf None] by blast
  next
    case (Some l0)
    show ?thesis
      unfolding s'_def Some
      using save_existing_log[where en = en and ip = ip and t = t, OF wf Some] by blast
  qed
  then show "ingest_wf s'" and "has_punch s' (e, d, t)"
    and "\<And>k'. k' \<noteq> (e, d, t) \<Longrightarrow> has_punch s' k' = has_punch s k'"
    by blast+
qed

lemma process_event_dup:
  assumes "event_key en ev = Some key" and "has_punch s key"
  shows "process_event en label ip (s, c, k) ev = Inr (s, c, k + 1)"
proof -
  obtain e d t where key: "key = (e, d, t)" by (cases key)
  show ?thesis
    using assms unfolding key by (simp add: process_event_keyed has_punch_def)
qed

lemma process_event_fresh:
  assumes wf: "ingest_wf s" and key: "event_key en ev = Some (e, d, t)"
    and fresh: "\<not> has_punch s (e, d, t)" and accepts: "\<forall>s l p. save_ok en s l p"
  shows "\<exists>s'. process_event en label ip (s, c, k) ev = Inr (s', c + 1, k) \<and> ingest_wf s'
      \<and> has_punch s' (e, d, t)
      \<and> (\<forall>k'. k' \<noteq> (e, d, t) \<longrightarrow> has_punch s' k' = has_punch s k')
      \<and> map p_punch_time (punches s') = map p_punch_time (punches s) @ [Some t]"
proof -
  let ?doc = "get_all_log s e d"
  let ?s' = "save_doc s ?doc (log_doc en ip s ?doc e d) (new_punch en ip s ?doc t)"
  have run: "process_event en label ip (s, c, k) ev = Inr (?s', c + 1, k)"
    using fresh accepts by (simp add: process_event_keyed[OF key] has_punch_def)
  have t: "p_punch_time (new_punch en ip s ?doc t) = Some t"
    by (cases ?doc) (simp_all add: new_punch_def punch_row_def)
  have "map p_punch_time (punches ?s') = map p_punch_time (punches s) @ [Some t]"
    by (simp add: punches_save_doc t)
  then show ?thesis
    using run save_event_effect[where e = e and d = d and en = en and ip = ip and t = t, OF wf] by blast
qed

lemma event_key_take19:
  assumes "employeeNoString ev1 = employeeNoString ev2"
    and "ev_time ev1 = Some ts1" and "ev_time ev2 = Some ts2"
    and "take 19 ts1 = take 19 ts2"
  shows "event_key en ev1 = event_key en ev2"
proof -
  have "ts1 = [] \<longleftrightarrow> ts2 = []"
    using assms(4) by (cases ts1; cases ts2) simp_all
  then show ?thesis using assms by (simp add: event_key_def split: option.splits)
qed

subsection \<open>The dedup key\<close>

text \<open>
  C2, as amended. The ingest reads the first 19 characters of a timestamp, that is the
  date and the time of day to the second. Two events of one employee whose timestamps
  agree there are one punch: the second is counted as a skipped duplicate. Two events
  of one employee and date whose times of day differ by a second or more are two
  punches. (The store is well-formed, the first event is new to it, and the host
  application accepts the saves.)
\<close>

theorem dedup_to_the_second:
  assumes wf: "ingest_wf s" and accepts: "\<forall>s l p. save_ok en s l p"
    and e1: "employeeNoString ev1 = Some e" "ev_time ev1 = Some ts1"
    and e2: "employeeNoString ev2 = Some e" "ev_time ev2 = Some ts2"
    and k1: "event_key en ev1 = Some (e, d, t1)" and fresh1: "\<not> has_punch s (e, d, t1)"
  shows "(take 19 ts1 = take 19 ts2 \<longrightarrow>
           (\<exists>s1. for_events en label ip (s, c, k) [ev1, ev2] = Inr (s1, c + 1, k + 1)
              \<and> map p_punch_time (punches s1) = map p_punch_time (punches s) @ [Some t1])) \<and>
         (event_key en ev2 = Some (e, d, t2) \<and> t2 \<noteq> t1 \<and> \<not> has_punch s (e, d, t2) \<longrightarrow>
           (\<exists>s2. for_events en label ip (s, c, k) [ev1, ev2] = Inr (s2, c + 2, k)
              \<and> map p_punch_time (punches s2)
                  = map p_punch_time (punches s) @ [Some t1, Some t2]))"
proof -
  from process_event_fresh[OF wf k1 fresh1 accepts, of label ip c k]
  obtain s1 where first: "process_event en label ip (s, c, k) ev1 = Inr (s1, c + 1, k)"
    and wf1: "ingest_wf s1" and has1: "has_punch s1 (e, d, t1)"
    and others: "\<forall>k'. k' \<noteq> (e, d, t1) \<longrightarrow> has_punch s1 k' = has_punch s k'"
    and p1: "map p_punch_time (punches s1) = map p_punch_time (punches s) @ [Some t1]"
    by blast
  show ?thesis
  proof (intro conjI impI)
    assume "take 19 ts1 = take 19 ts2"
    then have "event_key en ev2 = Some (e, d, t1)"
      using event_key_take19[of ev1 ev2 ts1 ts2 en] e1 e2 k1 by simp
    from process_event_dup[OF this has1, of label ip "c + 1" k]
    have "for_events en label ip (s, c, k) [ev1, ev2] = Inr (s1, c + 1, k + 1)"
      using first by simp
    then show "\<exists>s1. for_events en label ip (s, c, k) [ev1, ev2] = Inr (s1, c + 1, k + 1)
              \<and> map p_punch_time (punches s1) = map p_punch_time (punches s) @ [Some t1]"
      using p1 by blast
  next
    assume a: "event_key en ev2 = Some (e, d, t2) \<and> t2 \<noteq> t1 \<and> \<not> has_punch s (e, d, t2)"
    then have "\<not> has_punch s1 (e, d, t2)"
      using others[rule_format, of "(e, d, t2)"] by simp
    from process_event_fresh[OF wf1 _ this accepts, of ev2 label ip "c + 1" k] a
    obtain s2 where second: "process_event en label ip (s1, c + 1, k) ev2 = Inr (s2, c + 1 + 1, k)"
      and p2: "map p_punch_time (punches s2) = map p_punch_time (punches s1) @ [Some t2]"
      by blast
    have "for_events en label ip (s, c, k) [ev1, ev2] = Inr (s2, c + 2, k)"
      using first second by simp
    then show "\<exists>s2. for_events en label ip (s, c, k) [ev1, ev2] = Inr (s2, c + 2, k)
              \<and> map p_punch_time (punches s2)
                  = map p_punch_time (punches s) @ [Some t1, Some t2]"
      using p1 p2 by simp
  qed
qed


theorem dedup_to_the_second_witness:
  "ingest_wf store_empty \<and> (\<forall>s l p. save_ok env0 s l p) \<and>
   event_key env0 (an_event ''101'' ''2024-01-15T08:00:00.100'')
     = Some (''101'', (2024, 1, 15), 28800) \<and>
   \<not> has_punch store_empty (''101'', (2024, 1, 15), 28800) \<and>
   take 19 ''2024-01-15T08:00:00.100'' = take 19 ''2024-01-15T08:00:00.900'' \<and>
   (\<exists>s1. for_events env0 ''Main Device'' ''192.168.1.64'' (store_empty, 0, 0)
            [an_event ''101'' ''2024-01-15T08:00:00.100'',
             an_event ''101'' ''2024-01-15T08:00:00.900'']
          = Inr (s1, 1, 1)
       \<and> map p_punch_time (punches s1) = [Some 28800]) \<and>
   event_key env0 (an_event ''101'' ''2024-01-15T08:00:01.100'')
     = Some (''101'', (2024, 1, 15), 28801) \<and>
   \<not> has_punch store_empty (''101'', (2024, 1, 15), 28801) \<and>
   (\<exists>s2. for_events env0 ''Main Device'' ''192.168.1.64'' (store_empty, 0, 0)
            [an_event ''101'' ''2024-01-15T08:00:00.100'',
             an_event ''101'' ''2024-01-15T08:00:01.100'']
          = Inr (s2, 2, 0)
       \<and> map p_punch_time (punches s2) = [Some 28800, Some 28801])"
proof -
  let ?a = "an_event ''101'' ''2024-01-15T08:00:00.100''"
  let ?b = "an_event ''101'' ''2024-01-15T08:00:00.900''"
  let ?c = "an_event ''101'' ''2024-01-15T08:00:01.100''"
  have wf: "ingest_wf store_empty"
    by (simp add: ingest_wf_def store_empty_def a_store_def)
  have acc: "\<forall>s l p. save_ok env0 s l p"
    by (simp add: env0_def)
  have ka: "event_key env0 ?a = Some (''101'', (2024, 1, 15), 28800)"
    by (simp add: event_key_def ex_defs ingest_defs)
  have kc: "event_key env0 ?c = Some (''101'', (2024, 1, 15), 28801)"
    by (simp add: event_key_def ex_defs ingest_defs)
  have fa: "\<not> has_punch store_empty (''101'', (2024, 1, 15), 28800)"
    by (simp add: has_punch_def ex_defs ingest_defs)
  have fc: "\<not> has_punch store_empty (''101'', (2024, 1, 15), 28801)"
    by (simp add: has_punch_def ex_defs ingest_defs)
  have tk: "take 19 ''2024-01-15T08:00:00.100'' = take 19 ''2024-01-15T08:00:00.900''"
    by simp
  have e: "employeeNoString ?a = Some ''101''" "ev_time ?a = Some ''2024-01-15T08:00:00.100''"
    "employeeNoString ?b = Some ''101''" "ev_time ?b = Some ''2024-01-15T08:00:00.900''"
    "employeeNoString ?c = Some ''101''" "ev_time ?c = Some ''2024-01-15T08:00:01.100''"
    by (simp_all add: an_event_def)
  have p0: "punches store_empty = []" by (simp add: store_empty_def a_store_def)
  have ne: "(28801 :: nat) \<noteq> 28800" by simp
  note th1 = dedup_to_the_second[OF wf acc e(1,2,3,4) ka fa,
      of "''Main Device''" "''192.168.1.64''" 0 0 28800]
  note th2 = dedup_to_the_second[OF wf acc e(1,2,5,6) ka fa,
      of "''Main Device''" "''192.168.1.64''" 0 0 28801]
  note c1 = th1[THEN conjunct1, rule_format, OF tk, unfolded add_0 p0 list.map append_Nil]
  note c2 = th2[THEN conjunct2, rule_format, OF conjI[OF kc conjI[OF ne fc]],
      unfolded add_0 p0 list.map append_Nil]
  show ?thesis
    by (intro conjI) (rule wf acc ka fa tk c1 kc fc c2)+
qed

text \<open>
  The claim as the specification states it fails on two events of employee 101 that
  differ only in their fractional seconds: one punch is stored, and the second event is
  counted as a skipped duplicate.
\<close>

theorem fractional_seconds_counterexample:
  "ev_time (an_event ''101'' ''2024-01-15T08:00:00.100'')
     \<noteq> ev_time (an_event ''101'' ''2024-01-15T08:00:00.900'') \<and>
   map_option outcome
     (sync_for_single_device env0 ''Main Device'' ''192.168.1.64''
        (paged_device [an_event ''101'' ''2024-01-15T08:00:00.100'',
                       an_event ''101'' ''2024-01-15T08:00:00.900'']) store_empty)
     = Some (Inr (1, 1)) \<and>
   map p_punch_time (punches (result_store (the
     (sync_for_single_device env0 ''Main Device'' ''192.168.1.64''
        (paged_device [an_event ''101'' ''2024-01-15T08:00:00.100'',
                       an_event ''101'' ''2024-01-15T08:00:00.900'']) store_empty))))
     = [Some 28800]"
proof -
  have 1: "ev_time (an_event ''101'' ''2024-01-15T08:00:00.100'')
     \<noteq> ev_time (an_event ''101'' ''2024-01-15T08:00:00.900'')"
    by (simp add: an_event_def)
  have 2: "map_option outcome
     (sync_for_single_device env0 ''Main Device'' ''192.168.1.64''
        (paged_device [an_event ''101'' ''2024-01-15T08:00:00.100'',
                       an_event ''101'' ''2024-01-15T08:00:00.900'']) store_empty)
     = Some (Inr (1, 1))"
    unfolding sync_for_single_device_def
    by (subst fetch_pages.simps) (simp add: ex_defs ingest_defs outcome_def Let_def)
  have 3: "map p_punch_time (punches (result_store (the
     (sync_for_single_device env0 ''Main Device'' ''192.168.1.64''
        (paged_device [an_event ''101'' ''2024-01-15T08:00:00.100'',
                       an_event ''101'' ''2024-01-15T08:00:00.900'']) store_empty))))
     = [Some 28800]"
    unfolding sync_for_single_device_def
    by (subst fetch_pages.simps) (simp add: ex_defs ingest_defs result_store_def Let_def)
  show ?thesis using 1 2 3 by blast
qed

end
